theory Spec2Isabelle
  imports Main "HOL-Library.Word" "HOL-Library.Signed_Division"
begin

unbundle bit_operations_syntax

section \<open>LPEL top: configuration, validation, thread assignment\<close>

text \<open>
  The second part of \<^verbatim>\<open>src/taskqueue.h\<close> is the main LPEL module. A C \<^verbatim>\<open>int\<close> is a
  32-bit word, read as signed by \<open>sint\<close>; \<open>+\<close> on it wraps around.
\<close>

type_synonym int32 = "32 word"

text \<open>
  Modelled from the spec: the header \<^verbatim>\<open>lpel.h\<close>, which declares the configuration
  struct, is not among the sources. The spec lists its fields: \<^verbatim>\<open>num_workers\<close>,
  \<^verbatim>\<open>proc_workers\<close>, \<^verbatim>\<open>proc_others\<close>, \<^verbatim>\<open>flags\<close> (a bitset) and \<^verbatim>\<open>node\<close>
  (an opaque integer); the source reads them as \<^verbatim>\<open>int\<close>.
\<close>

record lpel_config_t =
  num_workers :: int32
  proc_workers :: int32
  proc_others :: int32
  flags :: int32
  node :: int32

text \<open>
  Modelled from the spec: the flag constants of \<^verbatim>\<open>lpel.h\<close>. The spec describes
  \<^verbatim>\<open>flags\<close> as a bitset with the two recognized flags PINNED and EXCLUSIVE; they are
  taken as the bits \<^verbatim>\<open>1<<0\<close> and \<^verbatim>\<open>1<<1\<close>.
\<close>

definition LPEL_FLAG_PINNED :: int32 where
  "LPEL_FLAG_PINNED = 1"

definition LPEL_FLAG_EXCLUSIVE :: int32 where
  "LPEL_FLAG_EXCLUSIVE = 2"

text \<open>
  Modelled from the spec: the status codes of \<^verbatim>\<open>lpel.h\<close>. The spec gives \<^verbatim>\<open>OK=0\<close> and
  four error codes; a status is a value of this type, \<open>LPEL_ERR_SUCCESS\<close> standing
  for the integer 0, so that \<^verbatim>\<open>res != 0\<close> is \<open>res \<noteq> LPEL_ERR_SUCCESS\<close>.
\<close>

datatype lpel_status =
  LPEL_ERR_SUCCESS | LPEL_ERR_FAIL | LPEL_ERR_INVAL | LPEL_ERR_ASSIGN | LPEL_ERR_EXCL

text \<open>
  What the operating system and the build answer. \<open>linux\<close> is \<^verbatim>\<open>__linux__\<close>,
  \<open>use_capabilities\<close> is \<^verbatim>\<open>LPEL_USE_CAPABILITIES\<close>; \<open>nprocessors_onln\<close> is the number
  of processors online and \<open>sysconf_available\<close> says whether \<^verbatim>\<open>sysconf\<close> can tell it
  (it returns -1 when it cannot); \<open>cap_get_proc_ok\<close> says that
  \<^verbatim>\<open>cap_get_proc()\<close> is not NULL and \<open>cap_sys_nice_effective\<close> that the flag read by
  \<^verbatim>\<open>cap_get_flag\<close> is \<^verbatim>\<open>CAP_SET\<close>; \<open>sched_setaffinity_ret\<close> and \<open>sched_setscheduler_ret\<close>
  are the return values of the two system calls.
\<close>

type_synonym cpu_set_t = "int set"

record os_env =
  linux :: bool
  use_capabilities :: bool
  nprocessors_onln :: "64 word"
  sysconf_available :: bool
  cap_get_proc_ok :: bool
  cap_sys_nice_effective :: bool
  sched_setaffinity_ret :: "cpu_set_t \<Rightarrow> int32"
  sched_setscheduler_ret :: int32

text \<open>\<^verbatim>\<open>sysconf(_SC_NPROCESSORS_ONLN)\<close>, a \<^verbatim>\<open>long\<close>.\<close>

definition sysconf_SC_NPROCESSORS_ONLN :: "os_env \<Rightarrow> 64 word" where
  "sysconf_SC_NPROCESSORS_ONLN env =
     (if sysconf_available env then nprocessors_onln env else - 1)"

text \<open>
  A \<^verbatim>\<open>cpu_set_t\<close> is the set of the CPU numbers it holds; it has room for the numbers
  below \<^verbatim>\<open>CPU_SETSIZE\<close>, 1024 in glibc's \<^verbatim>\<open><sched.h>\<close>. \<^verbatim>\<open>CPU_ZERO\<close> is the empty set.
  \<^verbatim>\<open>CPU_SET(cpu, set)\<close> converts \<^verbatim>\<open>cpu\<close> to \<^verbatim>\<open>size_t\<close> and sets its bit only if it is below
  \<^verbatim>\<open>CPU_SETSIZE\<close>: a negative or larger number leaves the set as it is.
\<close>

definition CPU_SETSIZE :: int where
  "CPU_SETSIZE = 1024"

definition CPU_ZERO :: cpu_set_t where
  "CPU_ZERO = {}"

definition CPU_SET :: "int \<Rightarrow> cpu_set_t \<Rightarrow> cpu_set_t" where
  "CPU_SET i s = (if 0 \<le> i \<and> i < CPU_SETSIZE then insert i s else s)"

text \<open>
  Calls that leave the module are logged in program order: the system calls of
  \<^verbatim>\<open>LpelThreadAssign\<close>, and the calls of \<^verbatim>\<open>LpelInit\<close> into the coroutine library and
  the worker module (\<^verbatim>\<open>worker.h\<close>, not among the sources), which own the worker
  structures and spawn the worker threads.
\<close>

datatype sched_policy = SCHED_FIFO

datatype syscall =
  Sched_setaffinity cpu_set_t
| Sched_setscheduler sched_policy int32

datatype extcall =
  Co_thread_init
| LpelWorkerInit int32 int32
| LpelWorkerSpawn

text \<open>The module's variables: the stored configuration, the two CPU sets, and the
  log of the calls made into the worker module.\<close>

record lpel_state =
  lpel_global_config :: lpel_config_t
  cpuset_others :: cpu_set_t
  cpuset_workers :: cpu_set_t
  worker_calls :: "extcall list"

text \<open>\<^verbatim>\<open>#define LPEL_ICFG(f) ( (_lpel_global_config.flags & (f)) == (f) )\<close>\<close>

definition LPEL_ICFG :: "lpel_state \<Rightarrow> int32 \<Rightarrow> bool" where
  "LPEL_ICFG st f = (flags (lpel_global_config st) AND f = f)"

text \<open>
  A function \<^verbatim>\<open>int f(int *result)\<close> returns \<open>Inl e\<close> when it returns the error \<open>e\<close>
  and leaves \<^verbatim>\<open>*result\<close> alone, and \<open>Inr v\<close> when it returns 0 after \<^verbatim>\<open>*result = v\<close>.
  The \<^verbatim>\<open>long\<close> of \<^verbatim>\<open>sysconf\<close> is cut to an \<^verbatim>\<open>int\<close> by the assignment to \<^verbatim>\<open>proc_avail\<close>.
\<close>

definition LpelGetNumCores :: "os_env \<Rightarrow> lpel_status + int32" where
  "LpelGetNumCores env =
     (let proc_avail = (ucast (sysconf_SC_NPROCESSORS_ONLN env) :: int32) in
      if proc_avail = - 1 then Inl LPEL_ERR_FAIL else Inr proc_avail)"

definition LpelCanSetExclusive :: "os_env \<Rightarrow> lpel_status + int32" where
  "LpelCanSetExclusive env =
     (if linux env \<and> use_capabilities env then
        (if \<not> cap_get_proc_ok env then Inl LPEL_ERR_FAIL
         else Inr (if cap_sys_nice_effective env then 1 else 0))
      else Inl LPEL_ERR_FAIL)"

definition CheckConfig :: "os_env \<Rightarrow> lpel_state \<Rightarrow> lpel_status" where
  "CheckConfig env st =
     (let cfg = lpel_global_config st in
      if sint (num_workers cfg) \<le> 0 \<or> sint (proc_workers cfg) \<le> 0 then LPEL_ERR_INVAL
      else if sint (proc_others cfg) < 0 then LPEL_ERR_INVAL
      else if (case LpelGetNumCores env of
                 Inr proc_avail \<Rightarrow> sint proc_avail < sint (proc_workers cfg + proc_others cfg)
               | Inl e \<Rightarrow> False) then LPEL_ERR_INVAL
      else if LPEL_ICFG st LPEL_FLAG_EXCLUSIVE then
        (if \<not> LPEL_ICFG st LPEL_FLAG_PINNED then LPEL_ERR_INVAL
         else if (case LpelCanSetExclusive env of
                    Inr can_rt \<Rightarrow> can_rt = 0
                  | Inl e \<Rightarrow> False) then LPEL_ERR_EXCL
         else LPEL_ERR_SUCCESS)
      else LPEL_ERR_SUCCESS)"

text \<open>
  \<^verbatim>\<open>for (i = lo; i < hi; i++) CPU_SET(i, &set);\<close> The counter stays below the bound,
  an \<^verbatim>\<open>int\<close>, so it is counted in \<open>int\<close>.
\<close>

function cpuset_fill :: "int \<Rightarrow> int \<Rightarrow> cpu_set_t \<Rightarrow> cpu_set_t" where
  "cpuset_fill i hi s = (if i < hi then cpuset_fill (i + 1) hi (CPU_SET i s) else s)"
  by pat_completeness auto
termination
  by (relation "measure (\<lambda>(i, hi, s). nat (hi - i))") auto

declare cpuset_fill.simps [simp del]

definition CreateCpusets :: "os_env \<Rightarrow> lpel_state \<Rightarrow> lpel_state" where
  "CreateCpusets env st =
     (if linux env then
        (let cfg = lpel_global_config st;
             st1 = st\<lparr>cpuset_workers := cpuset_fill 0 (sint (proc_workers cfg)) CPU_ZERO\<rparr>
         in if proc_others cfg = 0
            then st1\<lparr>cpuset_others := cpuset_fill 0 (sint (proc_workers cfg)) CPU_ZERO\<rparr>
            else st1\<lparr>cpuset_others :=
                   cpuset_fill (sint (proc_workers cfg))
                     (sint (proc_workers cfg + proc_others cfg)) CPU_ZERO\<rparr>)
      else st)"

definition LpelInit :: "os_env \<Rightarrow> lpel_config_t \<Rightarrow> lpel_state \<Rightarrow> lpel_status \<times> lpel_state" where
  "LpelInit env cfg st =
     (let st1 = st\<lparr>lpel_global_config := cfg\<rparr>;
          res = CheckConfig env st1
      in if res \<noteq> LPEL_ERR_SUCCESS then (res, st1)
         else
           (let st2 = CreateCpusets env st1;
                g = lpel_global_config st2
            in (LPEL_ERR_SUCCESS,
                st2\<lparr>worker_calls := worker_calls st2 @
                  [Co_thread_init, LpelWorkerInit (num_workers g) (node g), LpelWorkerSpawn]\<rparr>)))"

text \<open>
  \<^verbatim>\<open>LpelThreadAssign\<close> returns its status and the system calls it made, or stops the
  process: at the failed \<^verbatim>\<open>assert\<close>, or at the division by zero of
  \<^verbatim>\<open>core % cfg->proc_workers\<close>. C's \<^verbatim>\<open>%\<close> truncates towards zero: \<open>smod\<close>.
\<close>

datatype fault = AssertFailed | DivByZero | BadPointer | BadAlloc

definition LpelThreadAssign ::
  "os_env \<Rightarrow> lpel_state \<Rightarrow> int32 \<Rightarrow> fault + (lpel_status \<times> syscall list)" where
  "LpelThreadAssign env st core =
     (if linux env then
        (let cfg = lpel_global_config st in
         if core = - 1 then
           (if sched_setaffinity_ret env (cpuset_others st) \<noteq> 0
            then Inr (LPEL_ERR_ASSIGN, [Sched_setaffinity (cpuset_others st)])
            else Inr (LPEL_ERR_SUCCESS, [Sched_setaffinity (cpuset_others st)]))
         else if \<not> (0 \<le> sint core \<and> sint core < sint (num_workers cfg)) then Inl AssertFailed
         else if LPEL_ICFG st LPEL_FLAG_PINNED then
           (if proc_workers cfg = 0 then Inl DivByZero
            else
              (let cpuset = CPU_SET (sint core smod sint (proc_workers cfg)) CPU_ZERO in
               if sched_setaffinity_ret env cpuset \<noteq> 0
               then Inr (LPEL_ERR_ASSIGN, [Sched_setaffinity cpuset])
               else if LPEL_ICFG st (flags cfg AND LPEL_FLAG_EXCLUSIVE)
               then Inr (LPEL_ERR_SUCCESS, [Sched_setaffinity cpuset, Sched_setscheduler SCHED_FIFO 1])
               else Inr (LPEL_ERR_SUCCESS, [Sched_setaffinity cpuset])))
         else
           (if sched_setaffinity_ret env (cpuset_workers st) \<noteq> 0
            then Inr (LPEL_ERR_ASSIGN, [Sched_setaffinity (cpuset_workers st)])
            else Inr (LPEL_ERR_SUCCESS, [Sched_setaffinity (cpuset_workers st)])))
      else Inr (LPEL_ERR_SUCCESS, []))"

subsection \<open>Concrete configurations and environments\<close>

text \<open>A Linux host with four processors online, built with capability support, whose
  process does not hold \<^verbatim>\<open>CAP_SYS_NICE\<close>, and whose scheduling calls succeed.\<close>

definition env_linux :: os_env where
  "env_linux = \<lparr>linux = True, use_capabilities = True, nprocessors_onln = 4,
     sysconf_available = True, cap_get_proc_ok = True, cap_sys_nice_effective = False,
     sched_setaffinity_ret = (\<lambda>s. 0), sched_setscheduler_ret = 0\<rparr>"

text \<open>The module's variables before any \<^verbatim>\<open>LpelInit\<close>: statics are zero.\<close>

definition st_init :: lpel_state where
  "st_init = \<lparr>lpel_global_config =
       \<lparr>num_workers = 0, proc_workers = 0, proc_others = 0, flags = 0, node = 0\<rparr>,
     cpuset_others = {}, cpuset_workers = {}, worker_calls = []\<rparr>"

definition cfg_pinned :: lpel_config_t where
  "cfg_pinned = \<lparr>num_workers = 2, proc_workers = 1, proc_others = 0,
     flags = LPEL_FLAG_PINNED, node = 0\<rparr>"

definition cfg_noworkers :: lpel_config_t where
  "cfg_noworkers = \<lparr>num_workers = 0, proc_workers = 1, proc_others = 0,
     flags = LPEL_FLAG_PINNED OR LPEL_FLAG_EXCLUSIVE, node = 0\<rparr>"

text \<open>A host as \<open>env_linux\<close> whose \<^verbatim>\<open>sched_setaffinity\<close> refuses a mask without any of
  its four processors.\<close>

definition env_strict :: os_env where
  "env_strict = env_linux
     \<lparr>sched_setaffinity_ret := (\<lambda>s. if s \<inter> {0, 1, 2, 3} = {} then - 1 else 0)\<rparr>"

definition cfg_noprocs :: lpel_config_t where
  "cfg_noprocs = \<lparr>num_workers = 1, proc_workers = 0, proc_others = 0,
     flags = LPEL_FLAG_PINNED, node = 0\<rparr>"

definition cfg_wide :: lpel_config_t where
  "cfg_wide = \<lparr>num_workers = 2000, proc_workers = 2000, proc_others = 0,
     flags = LPEL_FLAG_PINNED, node = 0\<rparr>"

definition cfg_exclusive :: lpel_config_t where
  "cfg_exclusive = \<lparr>num_workers = 2, proc_workers = 2, proc_others = 1,
     flags = LPEL_FLAG_PINNED OR LPEL_FLAG_EXCLUSIVE, node = 0\<rparr>"

definition cfg_exclusive_only :: lpel_config_t where
  "cfg_exclusive_only = \<lparr>num_workers = 2, proc_workers = 2, proc_others = 1,
     flags = LPEL_FLAG_EXCLUSIVE, node = 0\<rparr>"

definition cfg_many :: lpel_config_t where
  "cfg_many = \<lparr>num_workers = 8, proc_workers = 8, proc_others = 0, flags = 0, node = 0\<rparr>"

definition cfg_overflow :: lpel_config_t where
  "cfg_overflow = \<lparr>num_workers = 1, proc_workers = 2147483647, proc_others = 1,
     flags = 0, node = 0\<rparr>"

lemmas lpel_inputs = env_linux_def st_init_def LPEL_FLAG_PINNED_def LPEL_FLAG_EXCLUSIVE_def
  CPU_SETSIZE_def

section \<open>The monitoring sidecar\<close>

text \<open>
  \<^verbatim>\<open>src/monitoring.c\<close>. Pointers are 64-bit addresses; \<^verbatim>\<open>unsigned int\<close> is a 32-bit and
  \<^verbatim>\<open>unsigned long\<close> a 64-bit word (Linux on a 64-bit machine), whose \<^verbatim>\<open>++\<close> wraps around.
\<close>

type_synonym ptr = "64 word"
type_synonym uint = "32 word"
type_synonym ulong = "64 word"

definition NULL :: ptr where
  "NULL = 0"

text \<open>\<^verbatim>\<open>#define ST_DIRTY_END ((mon_stream_t *)-1)\<close>\<close>

definition ST_DIRTY_END :: ptr where
  "ST_DIRTY_END = - 1"

text \<open>\<^verbatim>\<open>timing_t\<close> is a \<^verbatim>\<open>struct timespec\<close>: seconds and nanoseconds, both \<^verbatim>\<open>long\<close>.\<close>

record timing_t =
  tv_sec :: "64 word"
  tv_nsec :: "64 word"

text \<open>
  \<^verbatim>\<open>arch/timing.h\<close> is not among the sources: its two operations are parameters of the
  model, and the clock value that \<^verbatim>\<open>TIMESTAMP\<close> reads is an argument of the function that
  reads it.
\<close>

record timing_h =
  TimingDiff :: "timing_t \<Rightarrow> timing_t \<Rightarrow> timing_t"
  TimingAdd :: "timing_t \<Rightarrow> timing_t \<Rightarrow> timing_t"

text \<open>
  \<^verbatim>\<open>struct monctx_t\<close>; \<open>outfile\<close> holds the characters written to the \<^verbatim>\<open>FILE\<close> so far.
  Its dispatch counter is called \<open>ctx_disp\<close> here.
\<close>

record monctx_t =
  wid :: int32
  outfile :: string
  ctx_disp :: uint
  debug_level :: int32
  wait_cnt :: uint
  wait_total :: timing_t
  wait_current :: timing_t

text \<open>
  \<^verbatim>\<open>struct mon_task_t\<close>; \<open>name\<close> holds the characters of the C string in \<^verbatim>\<open>name[]\<close> before
  its terminating NUL. Its flags are called \<open>mon_flags\<close> here.
\<close>

record mon_task_t =
  name :: string
  ctx :: ptr
  tid :: ulong
  mon_flags :: ulong
  disp :: ulong
  times_creat :: timing_t
  times_total :: timing_t
  times_start :: timing_t
  times_stop :: timing_t
  dirty_list :: ptr
  blockon :: char

record mon_stream_t =
  montask :: ptr
  dirty :: ptr
  mode :: char
  state :: char
  sid :: uint
  counter :: ulong
  event_flags :: uint

definition ST_INUSE :: char where "ST_INUSE = CHR ''I''"
definition ST_OPENED :: char where "ST_OPENED = CHR ''O''"
definition ST_CLOSED :: char where "ST_CLOSED = CHR ''C''"
definition ST_REPLACED :: char where "ST_REPLACED = CHR ''R''"

definition ST_MOVED :: uint where "ST_MOVED = 1"
definition ST_WAKEUP :: uint where "ST_WAKEUP = 2"
definition ST_BLOCKON :: uint where "ST_BLOCKON = 4"

text \<open>\<^verbatim>\<open>taskstate_t\<close> of \<^verbatim>\<open>src/task.h\<close>, with the character each enumerator stands for.\<close>

datatype taskstate_t = TASK_CREATED | TASK_RUNNING | TASK_READY | TASK_BLOCKED | TASK_ZOMBIE

fun taskstate_char :: "taskstate_t \<Rightarrow> char" where
  "taskstate_char TASK_CREATED = CHR ''C''"
| "taskstate_char TASK_RUNNING = CHR ''U''"
| "taskstate_char TASK_READY = CHR ''R''"
| "taskstate_char TASK_BLOCKED = CHR ''B''"
| "taskstate_char TASK_ZOMBIE = CHR ''Z''"

text \<open>
  Modelled from the spec: the monitoring flags of \<^verbatim>\<open>monitoring.h\<close>, which is not among
  the sources. The spec names the two flags of \<^verbatim>\<open>TaskMonitor\<close>, record-times and
  record-streams; they are taken as the bits \<^verbatim>\<open>1<<0\<close> and \<^verbatim>\<open>1<<1\<close>.
\<close>

definition LPEL_MON_TASK_TIMES :: ulong where
  "LPEL_MON_TASK_TIMES = 1"

definition LPEL_MON_TASK_STREAMS :: ulong where
  "LPEL_MON_TASK_STREAMS = 2"

definition FLAG_TIMES :: "mon_task_t \<Rightarrow> bool" where
  "FLAG_TIMES mt = (mon_flags mt AND LPEL_MON_TASK_TIMES \<noteq> 0)"

definition FLAG_STREAMS :: "mon_task_t \<Rightarrow> bool" where
  "FLAG_STREAMS mt = (mon_flags mt AND LPEL_MON_TASK_STREAMS \<noteq> 0)"

text \<open>
  The store: the task records, the stream records and the monitoring contexts that
  are allocated, each by its address, and the static \<^verbatim>\<open>monitoring_begin\<close>. An address that
  is NULL, freed or otherwise not allocated holds nothing, and going through it stops
  the program (\<open>BadPointer\<close>).
\<close>

record mon_heap =
  tasks :: "ptr \<Rightarrow> mon_task_t option"
  streams :: "ptr \<Rightarrow> mon_stream_t option"
  ctxs :: "ptr \<Rightarrow> monctx_t option"
  monitoring_begin :: timing_t

subsection \<open>What \<^verbatim>\<open>fprintf\<close> writes\<close>

definition digit_char :: "nat \<Rightarrow> char" where
  "digit_char d = char_of (48 + d)"

text \<open>\<^verbatim>\<open>%u\<close> and \<^verbatim>\<open>%lu\<close>: the decimal digits of an unsigned number.\<close>

function dec :: "nat \<Rightarrow> string" where
  "dec n = (if n < 10 then [digit_char n] else dec (n div 10) @ [digit_char (n mod 10)])"
  by pat_completeness auto
termination
  by (relation "measure id") auto

declare dec.simps [simp del]

text \<open>\<^verbatim>\<open>%06lu\<close>: at least six digits, padded with zeros on the left.\<close>

definition dec06 :: "nat \<Rightarrow> string" where
  "dec06 n = replicate (6 - length (dec n)) (CHR ''0'') @ dec n"

text \<open>The text appended to the file of the context at \<open>file\<close>.\<close>

definition fprintf :: "ptr \<Rightarrow> string \<Rightarrow> mon_heap \<Rightarrow> mon_heap" where
  "fprintf file txt h =
     (case ctxs h file of
        None \<Rightarrow> h
      | Some c \<Rightarrow> h\<lparr>ctxs := (ctxs h)(file \<mapsto> c\<lparr>outfile := outfile c @ txt\<rparr>)\<rparr>)"

text \<open>
  \<^verbatim>\<open>PrintTiming\<close>: the text it prints. \<^verbatim>\<open>t->tv_nsec / 1000\<close> divides a \<^verbatim>\<open>long\<close>, truncating,
  and \<^verbatim>\<open>%lu\<close> reads the quotient as unsigned.
\<close>

definition usec_of :: "timing_t \<Rightarrow> ulong" where
  "usec_of t = word_of_int (sint (tv_nsec t) sdiv 1000)"

definition PrintTiming :: "timing_t \<Rightarrow> string" where
  "PrintTiming t =
     (if tv_sec t = 0 then dec (unat (usec_of t)) @ '' ''
      else dec (unat (tv_sec t)) @ dec06 (unat (usec_of t)) @ '' '')"

subsection \<open>The dirty list\<close>

definition MarkDirty :: "ptr \<Rightarrow> mon_heap \<Rightarrow> fault + mon_heap" where
  "MarkDirty ms h =
     (case streams h ms of
        None \<Rightarrow> Inl BadPointer
      | Some s \<Rightarrow>
          (let mt = montask s in
           if dirty s = NULL then
             (case tasks h mt of
                None \<Rightarrow> Inl BadPointer
              | Some t \<Rightarrow>
                  Inr (h\<lparr>streams := (streams h)(ms \<mapsto> s\<lparr>dirty := dirty_list t\<rparr>),
                         tasks := (tasks h)(mt \<mapsto> t\<lparr>dirty_list := ms\<rparr>)\<rparr>))
           else Inr h))"

text \<open>The text of one entry: \<^verbatim>\<open>"%u,%c,%c,%lu,%c%c%c;"\<close>.\<close>

definition print_entry :: "mon_stream_t \<Rightarrow> string" where
  "print_entry s =
     dec (unat (sid s)) @ '','' @ [mode s] @ '','' @ [state s] @ '','' @
     dec (unat (counter s)) @ '','' @
     [if event_flags s AND ST_BLOCKON \<noteq> 0 then CHR ''?'' else CHR ''-'',
      if event_flags s AND ST_WAKEUP \<noteq> 0 then CHR ''!'' else CHR ''-'',
      if event_flags s AND ST_MOVED \<noteq> 0 then CHR ''*'' else CHR ''-''] @ '';''"

text \<open>
  The loop of \<^verbatim>\<open>PrintDirtyList\<close>, from the entry \<open>ms\<close> on. It need not end (a list that
  runs into a cycle never reaches \<^verbatim>\<open>ST_DIRTY_END\<close>): no result is \<open>None\<close>.
\<close>

partial_function (option) PrintDirtyList_loop ::
  "ptr \<Rightarrow> ptr \<Rightarrow> ptr \<Rightarrow> mon_heap \<Rightarrow> (fault + mon_heap) option" where
  "PrintDirtyList_loop mt file ms h =
     (if ms = ST_DIRTY_END then Some (Inr h)
      else
        (case streams h ms of
           None \<Rightarrow> Some (Inl BadPointer)
         | Some s \<Rightarrow>
             if montask s \<noteq> mt then Some (Inl AssertFailed)
             else
               (let h1 = fprintf file (print_entry s) h;
                    next = dirty s
                in if state s = ST_OPENED \<or> state s = ST_REPLACED then
                     PrintDirtyList_loop mt file next
                       (h1\<lparr>streams := (streams h1)
                          (ms \<mapsto> s\<lparr>state := ST_INUSE, dirty := NULL, event_flags := 0\<rparr>)\<rparr>)
                   else if state s = ST_INUSE then
                     PrintDirtyList_loop mt file next
                       (h1\<lparr>streams := (streams h1)
                          (ms \<mapsto> s\<lparr>dirty := NULL, event_flags := 0\<rparr>)\<rparr>)
                   else if state s = ST_CLOSED then
                     PrintDirtyList_loop mt file next
                       (h1\<lparr>streams := (streams h1)(ms := None)\<rparr>)
                   else Some (Inl AssertFailed))))"

definition PrintDirtyList :: "ptr \<Rightarrow> mon_heap \<Rightarrow> (fault + mon_heap) option" where
  "PrintDirtyList mt h =
     (case tasks h mt of
        None \<Rightarrow> Some (Inl BadPointer)
      | Some t \<Rightarrow>
          (case ctxs h (ctx t) of
             None \<Rightarrow> Some (Inl BadPointer)
           | Some c \<Rightarrow>
               (case PrintDirtyList_loop mt (ctx t) (dirty_list t) h of
                  None \<Rightarrow> None
                | Some (Inl e) \<Rightarrow> Some (Inl e)
                | Some (Inr h') \<Rightarrow>
                    (case tasks h' mt of
                       None \<Rightarrow> Some (Inl BadPointer)
                     | Some t' \<Rightarrow>
                         Some (Inr (h'\<lparr>tasks := (tasks h')
                           (mt \<mapsto> t'\<lparr>dirty_list := ST_DIRTY_END\<rparr>)\<rparr>))))))"

subsection \<open>Tasks\<close>

text \<open>
  \<^verbatim>\<open>LpelMonTaskCreate\<close>. \<open>a\<close> is what \<^verbatim>\<open>malloc\<close> returns: NULL when it fails, which the code
  does not test before \<^verbatim>\<open>memset\<close>; otherwise an address that is neither allocated nor
  \<^verbatim>\<open>(void*)-1\<close> (\<open>BadAlloc\<close> marks an \<open>a\<close> that \<^verbatim>\<open>malloc\<close> cannot return). \<open>nm\<close> is the
  \<^verbatim>\<open>name\<close> argument: \<open>None\<close> for NULL, else the characters of the string.
  \<^verbatim>\<open>MON_TASKNAME_MAXLEN\<close> is 32, so at most 31 characters are kept.
\<close>

definition MON_TASKNAME_MAXLEN :: nat where
  "MON_TASKNAME_MAXLEN = 32"

definition timing_zero :: timing_t where
  "timing_zero = \<lparr>tv_sec = 0, tv_nsec = 0\<rparr>"

definition LpelMonTaskCreate ::
  "timing_h \<Rightarrow> timing_t \<Rightarrow> ptr \<Rightarrow> ulong \<Rightarrow> string option \<Rightarrow> ulong \<Rightarrow> mon_heap
    \<Rightarrow> fault + (ptr \<times> mon_heap)" where
  "LpelMonTaskCreate T tnow a tid' nm flags' h =
     (if a = NULL then Inl BadPointer
      else if tasks h a \<noteq> None \<or> a = ST_DIRTY_END then Inl BadAlloc
      else
        (let mt = \<lparr>name = (case nm of None \<Rightarrow> [] | Some n \<Rightarrow> take (MON_TASKNAME_MAXLEN - 1) n),
                   ctx = NULL, tid = tid', mon_flags = flags', disp = 0,
                   times_creat = timing_zero, times_total = timing_zero,
                   times_start = timing_zero, times_stop = timing_zero,
                   dirty_list = ST_DIRTY_END, blockon = CHR 0x00\<rparr>;
             mt1 = (if FLAG_TIMES mt
                    then mt\<lparr>times_creat := TimingDiff T (monitoring_begin h) tnow\<rparr>
                    else mt)
         in Inr (a, h\<lparr>tasks := (tasks h)(a \<mapsto> mt1)\<rparr>)))"

definition LpelMonTaskAssign :: "ptr \<Rightarrow> ptr \<Rightarrow> mon_heap \<Rightarrow> fault + mon_heap" where
  "LpelMonTaskAssign mt c h =
     (if mt = NULL then Inl AssertFailed
      else
        (case tasks h mt of
           None \<Rightarrow> Inl BadPointer
         | Some t \<Rightarrow>
             if ctx t \<noteq> NULL then Inl AssertFailed
             else Inr (h\<lparr>tasks := (tasks h)(mt \<mapsto> t\<lparr>ctx := c\<rparr>)\<rparr>)))"

text \<open>\<^verbatim>\<open>LpelMonTaskStart\<close>; \<open>now\<close> is the clock value that \<^verbatim>\<open>TIMESTAMP\<close> reads.\<close>

definition LpelMonTaskStart :: "timing_t \<Rightarrow> ptr \<Rightarrow> mon_heap \<Rightarrow> fault + mon_heap" where
  "LpelMonTaskStart now mt h =
     (if mt = NULL then Inl AssertFailed
      else
        (case tasks h mt of
           None \<Rightarrow> Inl BadPointer
         | Some t \<Rightarrow>
             (let t1 = (if FLAG_TIMES t then t\<lparr>times_start := now\<rparr> else t);
                  t2 = t1\<lparr>blockon := CHR ''a''\<rparr>;
                  t3 = t2\<lparr>disp := disp t2 + 1\<rparr>
              in case ctxs h (ctx t3) of
                   None \<Rightarrow> Inl BadPointer
                 | Some c \<Rightarrow>
                     Inr (h\<lparr>tasks := (tasks h)(mt \<mapsto> t3),
                            ctxs := (ctxs h)(ctx t3 \<mapsto> c\<lparr>ctx_disp := ctx_disp c + 1\<rparr>)\<rparr>))))"

text \<open>
  \<^verbatim>\<open>LpelMonTaskStop\<close>, statement by statement. The first line of the function goes
  through \<^verbatim>\<open>mt\<close> and \<^verbatim>\<open>mt->ctx\<close>; \<open>now\<close> is the clock value that \<^verbatim>\<open>TIMESTAMP\<close> reads.
\<close>

definition LpelMonTaskStop ::
  "timing_h \<Rightarrow> timing_t \<Rightarrow> ptr \<Rightarrow> taskstate_t \<Rightarrow> mon_heap \<Rightarrow> (fault + mon_heap) option" where
  "LpelMonTaskStop T now mt st h =
     (case tasks h mt of
        None \<Rightarrow> Some (Inl BadPointer)
      | Some t \<Rightarrow>
          (case ctxs h (ctx t) of
             None \<Rightarrow> Some (Inl BadPointer)
           | Some c \<Rightarrow>
               (let file = ctx t;
                    t1 = (if FLAG_TIMES t then t\<lparr>times_stop := now\<rparr> else t);
                    h1 = (if FLAG_TIMES t
                          then fprintf file
                                 (PrintTiming (TimingDiff T (monitoring_begin h) (times_stop t1))) h
                          else h);
                    h2 = fprintf file (dec (unat (tid t1)) @ '' '') h1;
                    h3 = (if name t1 \<noteq> [] then fprintf file (name t1 @ '' '') h2 else h2);
                    h4 = fprintf file (''disp '' @ dec (unat (disp t1)) @ '' '') h3;
                    h5 = (if st = TASK_BLOCKED
                          then fprintf file (''st B'' @ [blockon t1] @ '' '') h4
                          else fprintf file (''st '' @ [taskstate_char st] @ '' '') h4);
                    et = TimingDiff T (times_start t1) (times_stop t1);
                    t2 = (if FLAG_TIMES t
                          then t1\<lparr>times_total := TimingAdd T (times_total t1) et\<rparr> else t1);
                    h6 = (if FLAG_TIMES t
                          then fprintf file
                                 (''et '' @ PrintTiming et @
                                  (if st = TASK_ZOMBIE
                                   then ''creat '' @ PrintTiming (times_creat t1) else [])) h5
                          else h5);
                    h7 = h6\<lparr>tasks := (tasks h6)(mt \<mapsto> t2)\<rparr>
                in if FLAG_STREAMS t then
                     (case PrintDirtyList mt (fprintf file ''['' h7) of
                        None \<Rightarrow> None
                      | Some (Inl e) \<Rightarrow> Some (Inl e)
                      | Some (Inr h8) \<Rightarrow>
                          Some (Inr (fprintf file [CHR 0x0A] (fprintf file ''] '' h8))))
                   else Some (Inr (fprintf file [CHR 0x0A] h7)))))"

subsection \<open>Stream descriptors\<close>

text \<open>
  \<^verbatim>\<open>LpelMonStreamOpen\<close>; \<open>a\<close> is what \<^verbatim>\<open>malloc\<close> returns (as for \<^verbatim>\<open>LpelMonTaskCreate\<close>).
  The result is the descriptor, or NULL when the task is not monitored for streams.
\<close>

definition LpelMonStreamOpen ::
  "ptr \<Rightarrow> ptr \<Rightarrow> uint \<Rightarrow> char \<Rightarrow> mon_heap \<Rightarrow> fault + (ptr \<times> mon_heap)" where
  "LpelMonStreamOpen a mt sid' mode' h =
     (if mt = NULL then Inr (NULL, h)
      else
        (case tasks h mt of
           None \<Rightarrow> Inl BadPointer
         | Some t \<Rightarrow>
             if FLAG_STREAMS t then
               (if a = NULL then Inl BadPointer
                else if streams h a \<noteq> None \<or> a = ST_DIRTY_END then Inl BadAlloc
                else
                  (let ms = \<lparr>montask = mt, dirty = NULL, mode = mode', state = ST_OPENED,
                             sid = sid', counter = 0, event_flags = 0\<rparr>
                   in case MarkDirty a (h\<lparr>streams := (streams h)(a \<mapsto> ms)\<rparr>) of
                        Inl e \<Rightarrow> Inl e
                      | Inr h' \<Rightarrow> Inr (a, h')))
             else Inr (NULL, h)))"

definition LpelMonStreamClose :: "ptr \<Rightarrow> mon_heap \<Rightarrow> fault + mon_heap" where
  "LpelMonStreamClose ms h =
     (if ms = NULL then Inl AssertFailed
      else
        (case streams h ms of
           None \<Rightarrow> Inl BadPointer
         | Some s \<Rightarrow>
             MarkDirty ms (h\<lparr>streams := (streams h)(ms \<mapsto> s\<lparr>state := ST_CLOSED\<rparr>)\<rparr>)))"

definition LpelMonStreamReplace :: "ptr \<Rightarrow> uint \<Rightarrow> mon_heap \<Rightarrow> fault + mon_heap" where
  "LpelMonStreamReplace ms new_sid h =
     (if ms = NULL then Inl AssertFailed
      else
        (case streams h ms of
           None \<Rightarrow> Inl BadPointer
         | Some s \<Rightarrow>
             MarkDirty ms
               (h\<lparr>streams := (streams h)(ms \<mapsto> s\<lparr>state := ST_REPLACED, sid := new_sid\<rparr>)\<rparr>)))"

definition LpelMonStreamMoved :: "ptr \<Rightarrow> mon_heap \<Rightarrow> fault + mon_heap" where
  "LpelMonStreamMoved ms h =
     (if ms = NULL then Inl AssertFailed
      else
        (case streams h ms of
           None \<Rightarrow> Inl BadPointer
         | Some s \<Rightarrow>
             MarkDirty ms
               (h\<lparr>streams := (streams h)
                  (ms \<mapsto> s\<lparr>counter := counter s + 1,
                            event_flags := event_flags s OR ST_MOVED\<rparr>)\<rparr>)))"

definition LpelMonStreamBlockon :: "ptr \<Rightarrow> mon_heap \<Rightarrow> fault + mon_heap" where
  "LpelMonStreamBlockon ms h =
     (if ms = NULL then Inl AssertFailed
      else
        (case streams h ms of
           None \<Rightarrow> Inl BadPointer
         | Some s \<Rightarrow>
             (case MarkDirty ms
                     (h\<lparr>streams := (streams h)
                        (ms \<mapsto> s\<lparr>event_flags := event_flags s OR ST_BLOCKON\<rparr>)\<rparr>) of
                Inl e \<Rightarrow> Inl e
              | Inr h1 \<Rightarrow>
                  (case tasks h1 (montask s) of
                     None \<Rightarrow> Inl BadPointer
                   | Some t \<Rightarrow>
                       if mode s = CHR ''r'' then
                         Inr (h1\<lparr>tasks := (tasks h1)(montask s \<mapsto> t\<lparr>blockon := CHR ''i''\<rparr>)\<rparr>)
                       else if mode s = CHR ''w'' then
                         Inr (h1\<lparr>tasks := (tasks h1)(montask s \<mapsto> t\<lparr>blockon := CHR ''o''\<rparr>)\<rparr>)
                       else Inl AssertFailed))))"

definition LpelMonStreamWakeup :: "ptr \<Rightarrow> mon_heap \<Rightarrow> fault + mon_heap" where
  "LpelMonStreamWakeup ms h =
     (if ms = NULL then Inl AssertFailed
      else
        (case streams h ms of
           None \<Rightarrow> Inl BadPointer
         | Some s \<Rightarrow>
             Inr (h\<lparr>streams := (streams h)
                    (ms \<mapsto> s\<lparr>event_flags := event_flags s OR ST_WAKEUP\<rparr>)\<rparr>)))"

subsection \<open>Sequences of stream events\<close>

text \<open>
  The calls a task's stream operations make into the monitoring module between two
  stops of the task: one constructor per callback, with its arguments (for
  \<^verbatim>\<open>LpelMonStreamOpen\<close>, the address \<^verbatim>\<open>malloc\<close> returns comes first).
\<close>

datatype mon_event =
  StreamOpen ptr ptr uint char
| StreamClose ptr
| StreamReplace ptr uint
| StreamMoved ptr
| StreamBlockon ptr
| StreamWakeup ptr

fun mon_step :: "mon_event \<Rightarrow> mon_heap \<Rightarrow> fault + mon_heap" where
  "mon_step (StreamOpen a mt sid' mode') h =
     (case LpelMonStreamOpen a mt sid' mode' h of Inl e \<Rightarrow> Inl e | Inr (p, h') \<Rightarrow> Inr h')"
| "mon_step (StreamClose ms) h = LpelMonStreamClose ms h"
| "mon_step (StreamReplace ms new_sid) h = LpelMonStreamReplace ms new_sid h"
| "mon_step (StreamMoved ms) h = LpelMonStreamMoved ms h"
| "mon_step (StreamBlockon ms) h = LpelMonStreamBlockon ms h"
| "mon_step (StreamWakeup ms) h = LpelMonStreamWakeup ms h"

fun mon_run :: "mon_event list \<Rightarrow> mon_heap \<Rightarrow> fault + mon_heap" where
  "mon_run [] h = Inr h"
| "mon_run (e # es) h = (case mon_step e h of Inl f \<Rightarrow> Inl f | Inr h' \<Rightarrow> mon_run es h')"

subsection \<open>The shape of a dirty list\<close>

text \<open>
  \<open>dirty_chain m p ps\<close>: following the \<open>dirty\<close> links of the store \<open>m\<close> from \<open>p\<close> visits
  exactly the allocated descriptors \<open>ps\<close>, in this order, and then reaches
  \<^verbatim>\<open>ST_DIRTY_END\<close>.
\<close>

primrec dirty_chain :: "(ptr \<Rightarrow> mon_stream_t option) \<Rightarrow> ptr \<Rightarrow> ptr list \<Rightarrow> bool" where
  "dirty_chain m p [] = (p = ST_DIRTY_END)"
| "dirty_chain m p (a # as) =
     (p = a \<and> a \<noteq> ST_DIRTY_END \<and>
      (case m a of None \<Rightarrow> False | Some s \<Rightarrow> dirty_chain m (dirty s) as))"

text \<open>
  The dirty-list discipline of a store: NULL and \<^verbatim>\<open>ST_DIRTY_END\<close> are not allocated; the
  dirty list of every task ends at \<^verbatim>\<open>ST_DIRTY_END\<close> and holds descriptors of that task
  only; and a descriptor whose \<open>dirty\<close> link is not NULL is on the dirty list of its task.
\<close>

definition dirty_inv :: "mon_heap \<Rightarrow> bool" where
  "dirty_inv h =
     (streams h NULL = None \<and> streams h ST_DIRTY_END = None \<and>
      (\<forall>mt t. tasks h mt = Some t \<longrightarrow>
         (\<exists>ps. dirty_chain (streams h) (dirty_list t) ps \<and>
               (\<forall>a\<in>set ps. \<forall>s. streams h a = Some s \<longrightarrow> montask s = mt))) \<and>
      (\<forall>a s. streams h a = Some s \<longrightarrow> dirty s \<noteq> NULL \<longrightarrow>
         (\<exists>t ps. tasks h (montask s) = Some t \<and>
                 dirty_chain (streams h) (dirty_list t) ps \<and> a \<in> set ps)))"

subsection \<open>What a stop does to the dirty list\<close>

text \<open>The states a descriptor takes: one of I, O, C and R.\<close>

definition state_ok :: "mon_stream_t \<Rightarrow> bool" where
  "state_ok s = (state s = ST_INUSE \<or> state s = ST_OPENED \<or> state s = ST_CLOSED \<or>
                 state s = ST_REPLACED)"

text \<open>
  What the spec says a stop does to an entry of the dirty list: a Closed entry is freed;
  any other keeps its fields but for its state, which goes from Opened or Replaced to
  InUse, its dirty link, reset to NULL, and its event flags, cleared.
\<close>

definition drained :: "mon_stream_t \<Rightarrow> mon_stream_t option" where
  "drained s =
     (if state s = ST_CLOSED then None
      else Some (s\<lparr>state := (if state s = ST_OPENED \<or> state s = ST_REPLACED
                              then ST_INUSE else state s),
                   dirty := NULL, event_flags := 0\<rparr>))"

text \<open>The descriptors of a store after the entries \<open>ps\<close> are drained.\<close>

definition drain_all ::
  "(ptr \<Rightarrow> mon_stream_t option) \<Rightarrow> ptr list \<Rightarrow> ptr \<Rightarrow> mon_stream_t option" where
  "drain_all m ps a = (if a \<in> set ps then Option.bind (m a) drained else m a)"

text \<open>The text \<^verbatim>\<open>PrintDirtyList\<close> prints for the descriptor at an address.\<close>

definition entry_text :: "(ptr \<Rightarrow> mon_stream_t option) \<Rightarrow> ptr \<Rightarrow> string" where
  "entry_text m a = (case m a of None \<Rightarrow> [] | Some s \<Rightarrow> print_entry s)"

text \<open>
  The tuple of a dirty-list entry as the spec gives it, \<^verbatim>\<open>sid,mode,state,counter,?!*;\<close>:
  the stream id and the item counter in decimal, the mode and the state as their
  letters, and the three event letters \<^verbatim>\<open>?\<close> (blocked-on), \<^verbatim>\<open>!\<close> (woken) and \<^verbatim>\<open>*\<close> (moved),
  each standing for one recorded event and replaced by \<^verbatim>\<open>-\<close> when the event is not
  recorded. Blocked-on, woken and moved are the bits 2, 1 and 0 of the event flags.
\<close>

definition flag_letter :: "bool \<Rightarrow> char \<Rightarrow> char" where
  "flag_letter recorded letter = (if recorded then letter else CHR ''-'')"

definition stream_tuple :: "mon_stream_t \<Rightarrow> string" where
  "stream_tuple s =
     dec (unat (sid s)) @ '','' @ [mode s] @ '','' @ [state s] @ '','' @
     dec (unat (counter s)) @ '','' @
     [flag_letter (bit (event_flags s) 2) (CHR ''?''),
      flag_letter (bit (event_flags s) 1) (CHR ''!''),
      flag_letter (bit (event_flags s) 0) (CHR ''*'')] @ '';''"

text \<open>The tuple of the descriptor at an address.\<close>

definition tuple_text :: "(ptr \<Rightarrow> mon_stream_t option) \<Rightarrow> ptr \<Rightarrow> string" where
  "tuple_text m a = (case m a of None \<Rightarrow> [] | Some s \<Rightarrow> stream_tuple s)"

text \<open>The task record after a stop, but for its dirty list.\<close>

definition stop_task :: "timing_h \<Rightarrow> timing_t \<Rightarrow> mon_task_t \<Rightarrow> mon_task_t" where
  "stop_task T now t =
     (if FLAG_TIMES t
      then t\<lparr>times_stop := now,
             times_total := TimingAdd T (times_total t) (TimingDiff T (times_start t) now)\<rparr>
      else t)"

text \<open>
  The trace line of a stop up to its stream part, as the spec gives it:
  \<^verbatim>\<open><ts_norm> <tid> [<name> ] disp <N> st <S>[<sub>] [et <dt> [creat <ct>]]\<close>.
\<close>

definition stop_head ::
  "timing_h \<Rightarrow> timing_t \<Rightarrow> timing_t \<Rightarrow> mon_task_t \<Rightarrow> taskstate_t \<Rightarrow> string" where
  "stop_head T now begin t st =
     (if FLAG_TIMES t then PrintTiming (TimingDiff T begin now) else []) @
     dec (unat (tid t)) @ '' '' @
     (if name t \<noteq> [] then name t @ '' '' else []) @
     ''disp '' @ dec (unat (disp t)) @ '' '' @
     (if st = TASK_BLOCKED then ''st B'' @ [blockon t] @ '' ''
      else ''st '' @ [taskstate_char st] @ '' '') @
     (if FLAG_TIMES t
      then ''et '' @ PrintTiming (TimingDiff T (times_start t) now) @
           (if st = TASK_ZOMBIE then ''creat '' @ PrintTiming (times_creat t) else [])
      else [])"

definition states_ok :: "mon_heap \<Rightarrow> bool" where
  "states_ok h = (\<forall>a s. streams h a = Some s \<longrightarrow> state_ok s)"

text \<open>A task record with the two fields that stream events write, its dirty list and
  \<open>blockon\<close>, blanked: what stream events leave alone.\<close>

definition task_static :: "mon_task_t \<Rightarrow> mon_task_t" where
  "task_static t = t\<lparr>dirty_list := NULL, blockon := CHR 0x00\<rparr>"

text \<open>The modes a descriptor is documented to have: \<^verbatim>\<open>'r'\<close> or \<^verbatim>\<open>'w'\<close>.\<close>

definition mode_ok :: "char \<Rightarrow> bool" where
  "mode_ok m = (m = CHR ''r'' \<or> m = CHR ''w'')"

definition modes_ok :: "mon_heap \<Rightarrow> bool" where
  "modes_ok h = (\<forall>a s. streams h a = Some s \<longrightarrow> mode_ok (mode s))"

text \<open>An event that opens a descriptor does so in a documented mode.\<close>

fun event_ok :: "mon_event \<Rightarrow> bool" where
  "event_ok (StreamOpen a mt sid' mode') = mode_ok mode'"
| "event_ok e = True"

definition blockon_ok :: "char \<Rightarrow> bool" where
  "blockon_ok b = (b = CHR ''a'' \<or> b = CHR ''i'' \<or> b = CHR ''o'')"

subsection \<open>A concrete monitoring store\<close>

text \<open>One worker context at address \<open>0x100\<close>, one task at \<open>0x200\<close> monitored for
  streams and assigned to it, no descriptor yet.\<close>

definition timing_example :: timing_h where
  "timing_example =
     \<lparr>TimingDiff = (\<lambda>s e. \<lparr>tv_sec = tv_sec e - tv_sec s, tv_nsec = tv_nsec e - tv_nsec s\<rparr>),
      TimingAdd = (\<lambda>t v. \<lparr>tv_sec = tv_sec t + tv_sec v, tv_nsec = tv_nsec t + tv_nsec v\<rparr>)\<rparr>"

definition ctx_example :: monctx_t where
  "ctx_example = \<lparr>wid = 0, outfile = [], ctx_disp = 0, debug_level = 0, wait_cnt = 0,
     wait_total = timing_zero, wait_current = timing_zero\<rparr>"

definition task_example :: mon_task_t where
  "task_example = \<lparr>name = ''t1'', ctx = 0x100, tid = 5, mon_flags = LPEL_MON_TASK_STREAMS,
     disp = 0, times_creat = timing_zero, times_total = timing_zero,
     times_start = timing_zero, times_stop = timing_zero,
     dirty_list = ST_DIRTY_END, blockon = CHR 0x00\<rparr>"

definition heap_empty :: mon_heap where
  "heap_empty = \<lparr>tasks = Map.empty, streams = Map.empty, ctxs = [0x100 \<mapsto> ctx_example],
     monitoring_begin = timing_zero\<rparr>"

definition heap_example :: mon_heap where
  "heap_example = \<lparr>tasks = [0x200 \<mapsto> task_example], streams = Map.empty,
     ctxs = [0x100 \<mapsto> ctx_example], monitoring_begin = timing_zero\<rparr>"

text \<open>The task opens a stream for reading, moves an item and blocks on it.\<close>

definition events_example :: "mon_event list" where
  "events_example = [StreamOpen 0x300 0x200 7 (CHR ''r''), StreamMoved 0x300, StreamBlockon 0x300]"

definition stream_example :: mon_stream_t where
  "stream_example = \<lparr>montask = 0x200, dirty = ST_DIRTY_END, mode = CHR ''r'',
     state = ST_OPENED, sid = 7, counter = 1, event_flags = 5\<rparr>"

definition heap_dirty :: mon_heap where
  "heap_dirty = \<lparr>tasks = [0x200 \<mapsto> task_example\<lparr>dirty_list := 0x300, blockon := CHR ''i''\<rparr>],
     streams = [0x300 \<mapsto> stream_example],
     ctxs = [0x100 \<mapsto> ctx_example], monitoring_begin = timing_zero\<rparr>"


text \<open>The events that call \<^verbatim>\<open>MarkDirty\<close> on the descriptor at \<open>a\<close>: all but a wakeup.\<close>

fun marks :: "mon_event \<Rightarrow> ptr \<Rightarrow> bool" where
  "marks (StreamOpen a' mt sid' mode') a = (a' = a)"
| "marks (StreamClose ms) a = (ms = a)"
| "marks (StreamReplace ms new_sid) a = (ms = a)"
| "marks (StreamMoved ms) a = (ms = a)"
| "marks (StreamBlockon ms) a = (ms = a)"
| "marks (StreamWakeup ms) a = False"

text \<open>The descriptor at \<open>0x300\<close> after the stop that follows \<open>heap_dirty\<close>, and a peer's
  wakeup on it.\<close>

definition heap_clean :: mon_heap where
  "heap_clean = \<lparr>tasks = [0x200 \<mapsto> task_example\<lparr>blockon := CHR ''i''\<rparr>],
     streams = [0x300 \<mapsto> stream_example\<lparr>state := ST_INUSE, dirty := NULL, event_flags := 0\<rparr>],
     ctxs = [0x100 \<mapsto> ctx_example], monitoring_begin = timing_zero\<rparr>"

definition heap_woken :: mon_heap where
  "heap_woken = heap_clean\<lparr>streams :=
     [0x300 \<mapsto> stream_example\<lparr>state := ST_INUSE, dirty := NULL, event_flags := ST_WAKEUP\<rparr>]\<rparr>"


text \<open>The task record after \<^verbatim>\<open>LpelMonTaskStart\<close>.\<close>

definition start_task :: "timing_t \<Rightarrow> mon_task_t \<Rightarrow> mon_task_t" where
  "start_task now t =
     (if FLAG_TIMES t then t\<lparr>times_start := now\<rparr> else t)
       \<lparr>blockon := CHR ''a'', disp := disp t + 1\<rparr>"

text \<open>A task whose name holds a newline and whose dispatch counter is at its maximum,
  and the stores after its start and after its stop.\<close>

definition task_newline :: mon_task_t where
  "task_newline = task_example\<lparr>name := ''a'' @ [CHR 0x0A] @ ''b'', disp := - 1\<rparr>"

definition heap_newline :: mon_heap where
  "heap_newline = heap_example\<lparr>tasks := [0x200 \<mapsto> task_newline]\<rparr>"

definition heap_newline_started :: mon_heap where
  "heap_newline_started = heap_example
     \<lparr>tasks := [0x200 \<mapsto> task_newline\<lparr>disp := 0, blockon := CHR ''a''\<rparr>],
      ctxs := [0x100 \<mapsto> ctx_example\<lparr>ctx_disp := 1\<rparr>]\<rparr>"

definition heap_newline_stopped :: mon_heap where
  "heap_newline_stopped = heap_example
     \<lparr>tasks := [0x200 \<mapsto> task_newline\<lparr>disp := 0, blockon := CHR ''a''\<rparr>],
      ctxs := [0x100 \<mapsto> ctx_example
        \<lparr>ctx_disp := 1,
         outfile := ''5 a'' @ [CHR 0x0A] @ ''b disp 0 st R [] '' @ [CHR 0x0A]\<rparr>]\<rparr>"

text \<open>The stores of a dispatch of the task of \<open>heap_example\<close> that runs
  \<open>events_example\<close>: after the start, and after the events.\<close>

definition heap_started :: mon_heap where
  "heap_started = heap_example
     \<lparr>tasks := [0x200 \<mapsto> task_example\<lparr>disp := 1, blockon := CHR ''a''\<rparr>],
      ctxs := [0x100 \<mapsto> ctx_example\<lparr>ctx_disp := 1\<rparr>]\<rparr>"

definition heap_started_dirty :: mon_heap where
  "heap_started_dirty = heap_dirty
     \<lparr>tasks := [0x200 \<mapsto> task_example\<lparr>disp := 1, dirty_list := 0x300, blockon := CHR ''i''\<rparr>],
      ctxs := [0x100 \<mapsto> ctx_example\<lparr>ctx_disp := 1\<rparr>]\<rparr>"


section \<open>Properties of the LPEL top module\<close>

lemma ucast_minus_1: "(ucast (- 1 :: 64 word) :: 32 word) = - 1"
  by (rule bit_word_eqI) (simp add: bit_simps)

lemma smod_nonneg: "0 \<le> (a::int) \<Longrightarrow> 0 < b \<Longrightarrow> a smod b = a mod b"
  by (cases "a = 0") (simp_all add: signed_modulo_int_def)

lemma LpelInit_status:
  "fst (LpelInit env cfg st) = CheckConfig env (st\<lparr>lpel_global_config := cfg\<rparr>)"
  by (simp add: LpelInit_def Let_def)

lemma LpelGetNumCores_env_linux: "LpelGetNumCores env_linux = Inr 4"
  by (simp add: LpelGetNumCores_def sysconf_SC_NPROCESSORS_ONLN_def env_linux_def)

lemma cpuset_fill_0_1: "cpuset_fill 0 1 {} = {0}"
  by (simp add: cpuset_fill.simps [of 0 1] cpuset_fill.simps [of 1 1] CPU_SET_def
      CPU_SETSIZE_def)

text \<open>\<^verbatim>\<open>LpelInit\<close> accepts \<open>cfg_pinned\<close> on \<open>env_linux\<close>; this is the module state it leaves.\<close>

lemma LpelInit_cfg_pinned:
  "LpelInit env_linux cfg_pinned st_init =
     (LPEL_ERR_SUCCESS,
      \<lparr>lpel_global_config = cfg_pinned, cpuset_others = {0}, cpuset_workers = {0},
       worker_calls = [Co_thread_init, LpelWorkerInit 2 0, LpelWorkerSpawn]\<rparr>)"
  by (simp add: LpelInit_def CheckConfig_def LpelGetNumCores_def
      sysconf_SC_NPROCESSORS_ONLN_def LPEL_ICFG_def CreateCpusets_def CPU_ZERO_def
      cpuset_fill_0_1 lpel_inputs cfg_pinned_def Let_def)

text \<open>
  The test \<^verbatim>\<open>LPEL_ICFG(cfg->flags & LPEL_FLAG_EXCLUSIVE)\<close> of \<^verbatim>\<open>LpelThreadAssign\<close> masks the
  stored flags with themselves: it holds for every stored configuration and every mask.
\<close>

lemma LPEL_ICFG_double_mask: "LPEL_ICFG st (flags (lpel_global_config st) AND f)"
  by (simp add: LPEL_ICFG_def and.left_idem)

text \<open>
  C1 (the code departs from the claim). \<^verbatim>\<open>LpelInit\<close> accepts the configuration
  \<open>cfg_pinned\<close>, which sets PINNED and does not set EXCLUSIVE. With it stored,
  \<^verbatim>\<open>LpelThreadAssign(0)\<close> pins the thread to CPU 0 and then calls \<^verbatim>\<open>sched_setscheduler\<close>
  with \<^verbatim>\<open>SCHED_FIFO\<close> and priority 1 all the same: the scheduler branch is taken although
  EXCLUSIVE is not among the configured flags.
\<close>

theorem LpelThreadAssign_sets_scheduler_without_EXCLUSIVE:
  "fst (LpelInit env_linux cfg_pinned st_init) = LPEL_ERR_SUCCESS \<and>
   \<not> LPEL_ICFG (snd (LpelInit env_linux cfg_pinned st_init)) LPEL_FLAG_EXCLUSIVE \<and>
   LpelThreadAssign env_linux (snd (LpelInit env_linux cfg_pinned st_init)) 0 =
     Inr (LPEL_ERR_SUCCESS, [Sched_setaffinity {0}, Sched_setscheduler SCHED_FIFO 1])"
  unfolding LpelInit_cfg_pinned
  by (simp add: LpelThreadAssign_def LPEL_ICFG_def CPU_ZERO_def CPU_SET_def lpel_inputs
      cfg_pinned_def)

text \<open>
  C2 (the code departs from the claim). \<^verbatim>\<open>LpelInit\<close> stores the configuration before it
  checks it, and leaves it stored when the check fails, although the variable is
  declared as the copy of the checked configuration. \<^verbatim>\<open>LpelInit\<close> rejects \<open>cfg_noworkers\<close>
  (no workers) with \<^verbatim>\<open>LPEL_ERR_INVAL\<close>, and the module-wide stored configuration is not
  what it was before the call, but the rejected one. It rejects \<open>cfg_noprocs\<close> (no worker
  processor) too, and a \<^verbatim>\<open>LpelThreadAssign(0)\<close> that follows reads the rejected
  configuration and divides by its \<^verbatim>\<open>proc_workers\<close>, zero.
\<close>

theorem LpelInit_rejected_overwrites_config:
  "fst (LpelInit env_linux cfg_noworkers st_init) = LPEL_ERR_INVAL \<and>
   lpel_global_config (snd (LpelInit env_linux cfg_noworkers st_init))
     \<noteq> lpel_global_config st_init \<and>
   lpel_global_config (snd (LpelInit env_linux cfg_noworkers st_init)) = cfg_noworkers \<and>
   fst (LpelInit env_linux cfg_noprocs st_init) = LPEL_ERR_INVAL \<and>
   lpel_global_config (snd (LpelInit env_linux cfg_noprocs st_init)) = cfg_noprocs \<and>
   LpelThreadAssign env_linux (snd (LpelInit env_linux cfg_noprocs st_init)) 0
     = Inl DivByZero"
  by (simp add: LpelInit_def CheckConfig_def LpelThreadAssign_def LPEL_ICFG_def lpel_inputs
      cfg_noworkers_def cfg_noprocs_def Let_def)

text \<open>The CPU sets and the calls into the worker module are not touched by a rejected
  \<^verbatim>\<open>LpelInit\<close>: it returns before \<^verbatim>\<open>CreateCpusets\<close>.\<close>

lemma LpelInit_rejected_rest:
  "fst (LpelInit env cfg st) \<noteq> LPEL_ERR_SUCCESS \<Longrightarrow>
   cpuset_others (snd (LpelInit env cfg st)) = cpuset_others st \<and>
   cpuset_workers (snd (LpelInit env cfg st)) = cpuset_workers st \<and>
   worker_calls (snd (LpelInit env cfg st)) = worker_calls st"
  by (simp add: LpelInit_def Let_def split: if_splits)

text \<open>
  C3, counterexample. With \<open>cfg_pinned\<close> stored (PINNED set, two workers on one worker
  processor), \<^verbatim>\<open>LpelThreadAssign(1)\<close> sets the affinity to CPU 0, not CPU 1, and the
  distinct core arguments 0 and 1 are pinned to the same CPU.
\<close>

theorem LpelThreadAssign_pinned_wraps_core:
  "LPEL_ICFG (snd (LpelInit env_linux cfg_pinned st_init)) LPEL_FLAG_PINNED \<and>
   (0::int) \<le> sint (1::int32) \<and>
   sint (1::int32)
     < sint (num_workers (lpel_global_config (snd (LpelInit env_linux cfg_pinned st_init)))) \<and>
   LpelThreadAssign env_linux (snd (LpelInit env_linux cfg_pinned st_init)) 1 =
     Inr (LPEL_ERR_SUCCESS, [Sched_setaffinity {0}, Sched_setscheduler SCHED_FIFO 1]) \<and>
   LpelThreadAssign env_linux (snd (LpelInit env_linux cfg_pinned st_init)) 0 =
     LpelThreadAssign env_linux (snd (LpelInit env_linux cfg_pinned st_init)) 1"
  unfolding LpelInit_cfg_pinned
  by (simp add: LpelThreadAssign_def LPEL_ICFG_def CPU_ZERO_def CPU_SET_def lpel_inputs
      cfg_pinned_def signed_modulo_int_def)

text \<open>
  C3, as amended. On Linux, for every stored configuration with PINNED set and
  \<^verbatim>\<open>proc_workers > 0\<close> (as validation demands) and every core argument with
  \<^verbatim>\<open>0 <= core < num_workers\<close>, \<^verbatim>\<open>LpelThreadAssign\<close> makes exactly one affinity call. Its
  mask holds exactly the single CPU numbered \<^verbatim>\<open>core mod proc_workers\<close> when that number
  is below \<^verbatim>\<open>CPU_SETSIZE\<close>, and is empty otherwise. It returns \<^verbatim>\<open>LPEL_ERR_ASSIGN\<close> if that
  system call fails, and then makes no other call, and 0 otherwise. The CPU is \<^verbatim>\<open>core\<close>
  itself when \<^verbatim>\<open>core < proc_workers\<close>, so distinct core arguments below \<^verbatim>\<open>proc_workers\<close>
  and \<^verbatim>\<open>CPU_SETSIZE\<close> are pinned to distinct CPUs.
\<close>

theorem LpelThreadAssign_pinned_affinity:
  assumes "linux env" and "LPEL_ICFG st LPEL_FLAG_PINNED"
    and "0 \<le> sint core" and "sint core < sint (num_workers (lpel_global_config st))"
    and "0 < sint (proc_workers (lpel_global_config st))"
  shows "let cpu = sint core mod sint (proc_workers (lpel_global_config st));
             mask = (if cpu < CPU_SETSIZE then {cpu} else {});
             failed = (sched_setaffinity_ret env mask \<noteq> 0)
         in (\<exists>more. LpelThreadAssign env st core =
               Inr (if failed then LPEL_ERR_ASSIGN else LPEL_ERR_SUCCESS,
                    Sched_setaffinity mask # more) \<and>
               (\<forall>cs. Sched_setaffinity cs \<notin> set more) \<and> (failed \<longrightarrow> more = [])) \<and>
            (sint core < sint (proc_workers (lpel_global_config st)) \<longrightarrow> cpu = sint core)"
proof -
  have "core \<noteq> - 1" using assms(3) by auto
  moreover have "proc_workers (lpel_global_config st) \<noteq> 0" using assms(5) by auto
  moreover have "0 \<le> sint core mod sint (proc_workers (lpel_global_config st))"
    using assms(5) by simp
  ultimately show ?thesis using assms
    by (simp add: LpelThreadAssign_def Let_def CPU_SET_def CPU_ZERO_def smod_nonneg)
qed

text \<open>
  C3, witness. Core 1 of two workers on two worker processors is pinned to CPU 1. Core
  1500 of \<open>cfg_wide\<close>, 2000 workers on 2000 worker processors, gets the empty mask, which
  the host \<open>env_strict\<close> refuses.
\<close>

theorem LpelThreadAssign_pinned_affinity_witness:
  "linux env_linux \<and>
   LPEL_ICFG (st_init\<lparr>lpel_global_config := cfg_exclusive\<rparr>) LPEL_FLAG_PINNED \<and>
   (0::int) \<le> sint (1::int32) \<and>
   sint (1::int32)
     < sint (num_workers (lpel_global_config (st_init\<lparr>lpel_global_config := cfg_exclusive\<rparr>))) \<and>
   0 < sint (proc_workers (lpel_global_config (st_init\<lparr>lpel_global_config := cfg_exclusive\<rparr>))) \<and>
   sint (1::int32)
     < sint (proc_workers (lpel_global_config (st_init\<lparr>lpel_global_config := cfg_exclusive\<rparr>))) \<and>
   (\<exists>more. LpelThreadAssign env_linux (st_init\<lparr>lpel_global_config := cfg_exclusive\<rparr>) 1 =
      Inr (LPEL_ERR_SUCCESS, Sched_setaffinity {1} # more) \<and>
      (\<forall>cs. Sched_setaffinity cs \<notin> set more)) \<and>
   linux env_strict \<and>
   LPEL_ICFG (st_init\<lparr>lpel_global_config := cfg_wide\<rparr>) LPEL_FLAG_PINNED \<and>
   (0::int) \<le> sint (1500::int32) \<and>
   sint (1500::int32)
     < sint (num_workers (lpel_global_config (st_init\<lparr>lpel_global_config := cfg_wide\<rparr>))) \<and>
   0 < sint (proc_workers (lpel_global_config (st_init\<lparr>lpel_global_config := cfg_wide\<rparr>))) \<and>
   LpelThreadAssign env_strict (st_init\<lparr>lpel_global_config := cfg_wide\<rparr>) 1500 =
     Inr (LPEL_ERR_ASSIGN, [Sched_setaffinity {}])"
proof -
  let ?st = "st_init\<lparr>lpel_global_config := cfg_exclusive\<rparr>"
  let ?wide = "st_init\<lparr>lpel_global_config := cfg_wide\<rparr>"
  have a: "linux env_linux" "LPEL_ICFG ?st LPEL_FLAG_PINNED" "(0::int) \<le> sint (1::int32)"
    "sint (1::int32) < sint (num_workers (lpel_global_config ?st))"
    "0 < sint (proc_workers (lpel_global_config ?st))"
    by (simp_all add: LPEL_ICFG_def lpel_inputs cfg_exclusive_def)
  have p: "proc_workers (lpel_global_config ?st) = 2" "sched_setaffinity_ret env_linux {1} = 0"
    by (simp_all add: lpel_inputs cfg_exclusive_def)
  have b: "linux env_strict" "LPEL_ICFG ?wide LPEL_FLAG_PINNED"
    "(0::int) \<le> sint (1500::int32)"
    "sint (1500::int32) < sint (num_workers (lpel_global_config ?wide))"
    "0 < sint (proc_workers (lpel_global_config ?wide))"
    by (simp_all add: LPEL_ICFG_def lpel_inputs env_strict_def cfg_wide_def)
  have q: "proc_workers (lpel_global_config ?wide) = 2000"
    "sched_setaffinity_ret env_strict {} \<noteq> 0"
    by (simp_all add: lpel_inputs env_strict_def cfg_wide_def)
  from LpelThreadAssign_pinned_affinity [OF a] p
  have one: "\<exists>more. LpelThreadAssign env_linux ?st 1 =
      Inr (LPEL_ERR_SUCCESS, Sched_setaffinity {1} # more) \<and>
      (\<forall>cs. Sched_setaffinity cs \<notin> set more)"
    by (simp add: Let_def CPU_SETSIZE_def)
  from LpelThreadAssign_pinned_affinity [OF b] q
  have two: "LpelThreadAssign env_strict ?wide 1500 = Inr (LPEL_ERR_ASSIGN, [Sched_setaffinity {}])"
    by (simp add: Let_def CPU_SETSIZE_def)
  from one two a b p show ?thesis by simp
qed

text \<open>
  C4. For every configuration in which the EXCLUSIVE flag is set and the PINNED flag is
  not, \<^verbatim>\<open>LpelInit\<close> returns \<^verbatim>\<open>LPEL_ERR_INVAL\<close>, whatever the other fields, the host and the
  module state are.
\<close>

theorem LpelInit_exclusive_needs_pinned:
  "flags cfg AND LPEL_FLAG_EXCLUSIVE = LPEL_FLAG_EXCLUSIVE \<Longrightarrow>
   flags cfg AND LPEL_FLAG_PINNED \<noteq> LPEL_FLAG_PINNED \<Longrightarrow>
   fst (LpelInit env cfg st) = LPEL_ERR_INVAL"
  by (simp add: LpelInit_status CheckConfig_def LPEL_ICFG_def Let_def)

text \<open>C4, witness: an otherwise valid configuration with EXCLUSIVE alone.\<close>

theorem LpelInit_exclusive_needs_pinned_witness:
  "flags cfg_exclusive_only AND LPEL_FLAG_EXCLUSIVE = LPEL_FLAG_EXCLUSIVE \<and>
   flags cfg_exclusive_only AND LPEL_FLAG_PINNED \<noteq> LPEL_FLAG_PINNED \<and>
   fst (LpelInit env_linux cfg_exclusive_only st_init) = LPEL_ERR_INVAL"
proof -
  have a: "flags cfg_exclusive_only AND LPEL_FLAG_EXCLUSIVE = LPEL_FLAG_EXCLUSIVE"
    and b: "flags cfg_exclusive_only AND LPEL_FLAG_PINNED \<noteq> LPEL_FLAG_PINNED"
    by (simp_all add: lpel_inputs cfg_exclusive_only_def)
  from LpelInit_exclusive_needs_pinned [OF a b] a b show ?thesis by simp
qed

text \<open>
  C5, counterexample. Both configurations set EXCLUSIVE and PINNED, and the process does
  not hold the capability. \<open>cfg_noworkers\<close> fails an earlier check: \<^verbatim>\<open>LpelInit\<close> returns
  \<^verbatim>\<open>LPEL_ERR_INVAL\<close>, not \<^verbatim>\<open>LPEL_ERR_EXCL\<close>. And in a build without
  \<^verbatim>\<open>LPEL_USE_CAPABILITIES\<close> the permission cannot be checked: \<^verbatim>\<open>LpelInit\<close> accepts
  \<open>cfg_exclusive\<close> and spawns the workers.
\<close>

theorem LpelInit_exclusive_denied_other_results:
  "flags cfg_noworkers AND LPEL_FLAG_EXCLUSIVE = LPEL_FLAG_EXCLUSIVE \<and>
   flags cfg_noworkers AND LPEL_FLAG_PINNED = LPEL_FLAG_PINNED \<and>
   \<not> cap_sys_nice_effective env_linux \<and>
   fst (LpelInit env_linux cfg_noworkers st_init) = LPEL_ERR_INVAL \<and>
   flags cfg_exclusive AND LPEL_FLAG_EXCLUSIVE = LPEL_FLAG_EXCLUSIVE \<and>
   flags cfg_exclusive AND LPEL_FLAG_PINNED = LPEL_FLAG_PINNED \<and>
   \<not> cap_sys_nice_effective (env_linux\<lparr>use_capabilities := False\<rparr>) \<and>
   fst (LpelInit (env_linux\<lparr>use_capabilities := False\<rparr>) cfg_exclusive st_init)
     = LPEL_ERR_SUCCESS \<and>
   LpelWorkerSpawn \<in> set (worker_calls
     (snd (LpelInit (env_linux\<lparr>use_capabilities := False\<rparr>) cfg_exclusive st_init)))"
  by (simp add: LpelInit_def CheckConfig_def LpelGetNumCores_def sysconf_SC_NPROCESSORS_ONLN_def
      LpelCanSetExclusive_def LPEL_ICFG_def CreateCpusets_def lpel_inputs cfg_noworkers_def
          cfg_exclusive_def Let_def)

text \<open>
  C5, as amended. For every configuration that passes the earlier checks
  (\<^verbatim>\<open>num_workers > 0\<close>, \<^verbatim>\<open>proc_workers > 0\<close>, \<^verbatim>\<open>proc_others >= 0\<close>, and
  \<^verbatim>\<open>proc_workers + proc_others\<close> within the available cores when their number can be
  queried) with EXCLUSIVE and PINNED set, when \<^verbatim>\<open>LpelCanSetExclusive\<close> succeeds and reports
  that the process does not hold the capability, \<^verbatim>\<open>LpelInit\<close> returns \<^verbatim>\<open>LPEL_ERR_EXCL\<close>;
  only the stored configuration has changed, and no call into the worker module was
  made: no worker was initialised or spawned.
\<close>

theorem LpelInit_exclusive_denied:
  assumes "0 < sint (num_workers cfg)" and "0 < sint (proc_workers cfg)"
    and "0 \<le> sint (proc_others cfg)"
    and "case LpelGetNumCores env of
           Inr proc_avail \<Rightarrow> sint (proc_workers cfg + proc_others cfg) \<le> sint proc_avail
         | Inl e \<Rightarrow> True"
    and "flags cfg AND LPEL_FLAG_EXCLUSIVE = LPEL_FLAG_EXCLUSIVE"
    and "flags cfg AND LPEL_FLAG_PINNED = LPEL_FLAG_PINNED"
    and "LpelCanSetExclusive env = Inr 0"
  shows "LpelInit env cfg st = (LPEL_ERR_EXCL, st\<lparr>lpel_global_config := cfg\<rparr>) \<and>
         worker_calls (snd (LpelInit env cfg st)) = worker_calls st"
  using assms
  by (simp add: LpelInit_def CheckConfig_def LPEL_ICFG_def Let_def split: sum.splits)

text \<open>C5, witness: \<open>cfg_exclusive\<close> on the host \<open>env_linux\<close>, where the capability
  query succeeds and reports that \<^verbatim>\<open>CAP_SYS_NICE\<close> is not held.\<close>

theorem LpelInit_exclusive_denied_witness:
  "0 < sint (num_workers cfg_exclusive) \<and> 0 < sint (proc_workers cfg_exclusive) \<and>
   0 \<le> sint (proc_others cfg_exclusive) \<and>
   LpelGetNumCores env_linux = Inr 4 \<and>
   sint (proc_workers cfg_exclusive + proc_others cfg_exclusive) \<le> sint (4::int32) \<and>
   flags cfg_exclusive AND LPEL_FLAG_EXCLUSIVE = LPEL_FLAG_EXCLUSIVE \<and>
   flags cfg_exclusive AND LPEL_FLAG_PINNED = LPEL_FLAG_PINNED \<and>
   LpelCanSetExclusive env_linux = Inr 0 \<and>
   LpelInit env_linux cfg_exclusive st_init =
     (LPEL_ERR_EXCL, st_init\<lparr>lpel_global_config := cfg_exclusive\<rparr>) \<and>
   worker_calls (snd (LpelInit env_linux cfg_exclusive st_init)) = worker_calls st_init"
proof -
  have a: "0 < sint (num_workers cfg_exclusive)" "0 < sint (proc_workers cfg_exclusive)"
    "0 \<le> sint (proc_others cfg_exclusive)"
    "sint (proc_workers cfg_exclusive + proc_others cfg_exclusive) \<le> sint (4::int32)"
    "flags cfg_exclusive AND LPEL_FLAG_EXCLUSIVE = LPEL_FLAG_EXCLUSIVE"
    "flags cfg_exclusive AND LPEL_FLAG_PINNED = LPEL_FLAG_PINNED"
    by (simp_all add: lpel_inputs cfg_exclusive_def)
  have c: "LpelCanSetExclusive env_linux = Inr 0"
    by (simp add: LpelCanSetExclusive_def env_linux_def)
  have d: "case LpelGetNumCores env_linux of
             Inr proc_avail \<Rightarrow>
               sint (proc_workers cfg_exclusive + proc_others cfg_exclusive) \<le> sint proc_avail
           | Inl e \<Rightarrow> True"
    using a(4) by (simp add: LpelGetNumCores_env_linux)
  from LpelInit_exclusive_denied [OF a(1) a(2) a(3) d a(5) a(6) c, of st_init]
    LpelGetNumCores_env_linux a c
  show ?thesis by simp
qed

text \<open>
  C6, counterexample. Four processors are online. When \<^verbatim>\<open>sysconf\<close> cannot tell their
  number the check is skipped, and \<^verbatim>\<open>LpelInit\<close> accepts \<open>cfg_many\<close>, which asks for eight.
  And the \<^verbatim>\<open>int\<close> sum of \<open>cfg_overflow\<close>, 2147483647 + 1, wraps around to a negative
  number, which does not exceed four: \<^verbatim>\<open>LpelInit\<close> accepts it too.
\<close>

theorem LpelInit_too_few_cores_accepted:
  "sint (nprocessors_onln (env_linux\<lparr>sysconf_available := False\<rparr>))
     < sint (proc_workers cfg_many) + sint (proc_others cfg_many) \<and>
   fst (LpelInit (env_linux\<lparr>sysconf_available := False\<rparr>) cfg_many st_init)
     = LPEL_ERR_SUCCESS \<and>
   sint (nprocessors_onln env_linux)
     < sint (proc_workers cfg_overflow) + sint (proc_others cfg_overflow) \<and>
   fst (LpelInit env_linux cfg_overflow st_init) = LPEL_ERR_SUCCESS"
  by (simp add: LpelInit_status CheckConfig_def LpelGetNumCores_def
      sysconf_SC_NPROCESSORS_ONLN_def LpelCanSetExclusive_def LPEL_ICFG_def ucast_minus_1
      lpel_inputs cfg_many_def cfg_overflow_def Let_def)

lemma sint_add_no_overflow:
  fixes a b :: int32
  assumes "0 < sint a" and "0 \<le> sint b" and "sint a + sint b \<le> 2147483647"
  shows "sint (a + b) = sint a + sint b"
proof -
  have "sint (a + b) = signed_take_bit 31 (sint a + sint b)"
    by (simp add: sint_word_ariths)
  also have "\<dots> = sint a + sint b"
    using assms by (intro signed_take_bit_int_eq_self) simp_all
  finally show ?thesis .
qed

text \<open>
  C6, as amended. When \<^verbatim>\<open>LpelGetNumCores\<close> succeeds and reports \<open>proc_avail\<close> cores,
  for every configuration in which \<^verbatim>\<open>proc_workers + proc_others\<close> exceeds \<open>proc_avail\<close>
  and is at most \<^verbatim>\<open>INT_MAX\<close> (so that the \<^verbatim>\<open>int\<close> sum of the code is the sum),
  \<^verbatim>\<open>LpelInit\<close> returns \<^verbatim>\<open>LPEL_ERR_INVAL\<close>.
\<close>

theorem LpelInit_too_few_cores:
  assumes n: "LpelGetNumCores env = Inr proc_avail"
    and gt: "sint proc_avail < sint (proc_workers cfg) + sint (proc_others cfg)"
    and rep: "sint (proc_workers cfg) + sint (proc_others cfg) \<le> 2147483647"
  shows "fst (LpelInit env cfg st) = LPEL_ERR_INVAL"
proof (cases "0 < sint (proc_workers cfg) \<and> 0 \<le> sint (proc_others cfg)")
  case True
  then have "sint (proc_workers cfg + proc_others cfg)
      = sint (proc_workers cfg) + sint (proc_others cfg)"
    using rep by (simp add: sint_add_no_overflow)
  with n gt show ?thesis
    by (simp add: LpelInit_status CheckConfig_def Let_def)
next
  case False
  then show ?thesis
    by (auto simp add: LpelInit_status CheckConfig_def Let_def)
qed

text \<open>C6, witness: eight worker processors on the four cores of \<open>env_linux\<close>.\<close>

theorem LpelInit_too_few_cores_witness:
  "LpelGetNumCores env_linux = Inr 4 \<and>
   sint (4::int32) < sint (proc_workers cfg_many) + sint (proc_others cfg_many) \<and>
   sint (proc_workers cfg_many) + sint (proc_others cfg_many) \<le> 2147483647 \<and>
   fst (LpelInit env_linux cfg_many st_init) = LPEL_ERR_INVAL"
proof -
  have b: "sint (4::int32) < sint (proc_workers cfg_many) + sint (proc_others cfg_many)"
    and c: "sint (proc_workers cfg_many) + sint (proc_others cfg_many) \<le> 2147483647"
    by (simp_all add: cfg_many_def)
  from LpelInit_too_few_cores [OF LpelGetNumCores_env_linux b c] LpelGetNumCores_env_linux b c
  show ?thesis by simp
qed

section \<open>Properties of the monitoring sidecar\<close>

subsection \<open>Dirty lists\<close>

lemma ST_DIRTY_END_not_NULL: "ST_DIRTY_END \<noteq> NULL"
  by (simp add: ST_DIRTY_END_def NULL_def)

lemma dirty_chain_cong:
  "(\<And>a. a \<in> set ps \<Longrightarrow> map_option dirty (m' a) = map_option dirty (m a)) \<Longrightarrow>
   dirty_chain m' p ps = dirty_chain m p ps"
proof (induction ps arbitrary: p)
  case Nil
  show ?case by simp
next
  case (Cons a as)
  have eq: "map_option dirty (m' a) = map_option dirty (m a)"
    using Cons.prems by simp
  have ih: "\<And>q. dirty_chain m' q as = dirty_chain m q as"
    using Cons.IH Cons.prems by simp
  show ?case
  proof (cases "m a")
    case None
    with eq have "m' a = None" by simp
    with None show ?thesis by simp
  next
    case (Some s)
    with eq obtain s' where "m' a = Some s'" "dirty s' = dirty s" by auto
    with Some ih show ?thesis by simp
  qed
qed

lemma dirty_chain_unique:
  "dirty_chain m p ps \<Longrightarrow> dirty_chain m p qs \<Longrightarrow> ps = qs"
proof (induction ps arbitrary: p qs)
  case Nil
  then show ?case by (cases qs) auto
next
  case (Cons a as)
  then show ?case by (cases qs) (auto split: option.splits)
qed

lemma dirty_chain_suffix:
  "dirty_chain m p (xs @ a # ys) \<Longrightarrow> dirty_chain m a (a # ys)"
proof (induction xs arbitrary: p)
  case Nil
  then have "p = a" by simp
  with Nil show ?case by simp
next
  case (Cons x xs)
  from Cons.prems obtain s :: mon_stream_t where "dirty_chain m (dirty s) (xs @ a # ys)"
    by (auto split: option.splits)
  then show ?case by (rule Cons.IH)
qed

lemma dirty_chain_distinct: "dirty_chain m p ps \<Longrightarrow> distinct ps"
proof (induction ps arbitrary: p)
  case Nil
  show ?case by simp
next
  case (Cons a as)
  from Cons.prems obtain s where s: "m a = Some s" and tl: "dirty_chain m (dirty s) as"
    by (auto split: option.splits)
  have "a \<notin> set as"
  proof
    assume "a \<in> set as"
    then obtain xs ys where as: "as = xs @ a # ys" by (auto simp: in_set_conv_decomp)
    with tl have "dirty_chain m a (a # ys)" by (auto dest: dirty_chain_suffix)
    with s have "dirty_chain m (dirty s) ys" by simp
    with tl have "as = ys" by (rule dirty_chain_unique)
    with as show False by simp
  qed
  moreover from tl have "distinct as" by (rule Cons.IH)
  ultimately show ?case by simp
qed

lemma dirty_chain_linked:
  "m NULL = None \<Longrightarrow> dirty_chain m p ps \<Longrightarrow> a \<in> set ps \<Longrightarrow>
   \<exists>s. m a = Some s \<and> dirty s \<noteq> NULL"
proof (induction ps arbitrary: p)
  case Nil
  then show ?case by simp
next
  case (Cons b bs)
  from Cons.prems obtain s where s: "m b = Some s" and tl: "dirty_chain m (dirty s) bs"
    by (auto split: option.splits)
  have "dirty s \<noteq> NULL"
  proof (cases bs)
    case Nil
    with tl show ?thesis by (simp add: ST_DIRTY_END_not_NULL)
  next
    case (Cons c cs)
    with tl Cons.prems(1) show ?thesis by (auto split: option.splits)
  qed
  with s Cons show ?case by auto
qed

lemma dirty_invI:
  assumes "streams h NULL = None" and "streams h ST_DIRTY_END = None"
    and "\<And>mt t. tasks h mt = Some t \<Longrightarrow>
           \<exists>ps. dirty_chain (streams h) (dirty_list t) ps \<and>
                (\<forall>a\<in>set ps. \<forall>s. streams h a = Some s \<longrightarrow> montask s = mt)"
    and "\<And>a s. streams h a = Some s \<Longrightarrow> dirty s \<noteq> NULL \<Longrightarrow>
           \<exists>t ps. tasks h (montask s) = Some t \<and>
                  dirty_chain (streams h) (dirty_list t) ps \<and> a \<in> set ps"
  shows "dirty_inv h"
  using assms unfolding dirty_inv_def by blast

lemma dirty_inv_NULL: "dirty_inv h \<Longrightarrow> streams h NULL = None"
  and dirty_inv_END: "dirty_inv h \<Longrightarrow> streams h ST_DIRTY_END = None"
  by (simp_all add: dirty_inv_def)

lemma dirty_inv_task:
  "dirty_inv h \<Longrightarrow> tasks h mt = Some t \<Longrightarrow>
   \<exists>ps. dirty_chain (streams h) (dirty_list t) ps \<and>
        (\<forall>a\<in>set ps. \<forall>s. streams h a = Some s \<longrightarrow> montask s = mt)"
  unfolding dirty_inv_def by blast

lemma dirty_inv_stream:
  "dirty_inv h \<Longrightarrow> streams h a = Some s \<Longrightarrow> dirty s \<noteq> NULL \<Longrightarrow>
   \<exists>t ps. tasks h (montask s) = Some t \<and>
          dirty_chain (streams h) (dirty_list t) ps \<and> a \<in> set ps"
  unfolding dirty_inv_def by blast

lemma dirty_chain_upd_same:
  "m ms = Some s \<Longrightarrow> dirty s' = dirty s \<Longrightarrow>
   dirty_chain (m(ms \<mapsto> s')) p ps = dirty_chain m p ps"
  by (rule dirty_chain_cong) simp

lemma dirty_chain_upd_other:
  "ms \<notin> set ps \<Longrightarrow> dirty_chain (m(ms := x)) p ps = dirty_chain m p ps"
  by (rule dirty_chain_cong) auto

lemma dirty_chain_allocated:
  "dirty_chain m p ps \<Longrightarrow> a \<in> set ps \<Longrightarrow> m a \<noteq> None"
  by (induction ps arbitrary: p) (auto split: option.splits)

lemma dirty_inv_upd_stream:
  assumes inv: "dirty_inv h" and s: "streams h ms = Some s"
    and mt: "montask s' = montask s" and d: "dirty s' = dirty s"
  shows "dirty_inv (h\<lparr>streams := (streams h)(ms \<mapsto> s')\<rparr>)"
proof (rule dirty_invI)
  from inv s show "streams (h\<lparr>streams := (streams h)(ms \<mapsto> s')\<rparr>) NULL = None"
    by (auto simp: dirty_inv_NULL)
  from inv s show "streams (h\<lparr>streams := (streams h)(ms \<mapsto> s')\<rparr>) ST_DIRTY_END = None"
    by (auto simp: dirty_inv_END)
next
  fix mt t assume "tasks (h\<lparr>streams := (streams h)(ms \<mapsto> s')\<rparr>) mt = Some t"
  then have "tasks h mt = Some t" by simp
  from dirty_inv_task [OF inv this] obtain ps where
    ps: "dirty_chain (streams h) (dirty_list t) ps"
      "\<forall>a\<in>set ps. \<forall>s. streams h a = Some s \<longrightarrow> montask s = mt" by blast
  from ps s mt have "\<forall>a\<in>set ps. \<forall>x. ((streams h)(ms \<mapsto> s')) a = Some x \<longrightarrow> montask x = mt"
    by auto
  with ps(1) s d
  show "\<exists>ps. dirty_chain (streams (h\<lparr>streams := (streams h)(ms \<mapsto> s')\<rparr>)) (dirty_list t) ps \<and>
     (\<forall>a\<in>set ps. \<forall>s. streams (h\<lparr>streams := (streams h)(ms \<mapsto> s')\<rparr>) a = Some s \<longrightarrow> montask s = mt)"
    by (auto simp: dirty_chain_upd_same intro!: exI [of _ ps])
next
  fix a x assume a: "streams (h\<lparr>streams := (streams h)(ms \<mapsto> s')\<rparr>) a = Some x"
    and nn: "dirty x \<noteq> NULL"
  have "\<exists>y. streams h a = Some y \<and> dirty y = dirty x \<and> montask y = montask x"
    using a s mt d by (cases "a = ms") auto
  then obtain y where y: "streams h a = Some y" "dirty y = dirty x" "montask y = montask x"
    by blast
  with nn dirty_inv_stream [OF inv y(1)] obtain t ps where
    "tasks h (montask x) = Some t" "dirty_chain (streams h) (dirty_list t) ps" "a \<in> set ps"
    by auto
  with s d
  show "\<exists>t ps. tasks (h\<lparr>streams := (streams h)(ms \<mapsto> s')\<rparr>) (montask x) = Some t \<and>
     dirty_chain (streams (h\<lparr>streams := (streams h)(ms \<mapsto> s')\<rparr>)) (dirty_list t) ps \<and> a \<in> set ps"
    by (auto simp: dirty_chain_upd_same)
qed

lemma dirty_inv_upd_task:
  assumes inv: "dirty_inv h" and t: "tasks h mt = Some t"
    and d: "dirty_list t' = dirty_list t"
  shows "dirty_inv (h\<lparr>tasks := (tasks h)(mt \<mapsto> t')\<rparr>)"
proof (rule dirty_invI)
  from inv show "streams (h\<lparr>tasks := (tasks h)(mt \<mapsto> t')\<rparr>) NULL = None"
    by (simp add: dirty_inv_NULL)
  from inv show "streams (h\<lparr>tasks := (tasks h)(mt \<mapsto> t')\<rparr>) ST_DIRTY_END = None"
    by (simp add: dirty_inv_END)
next
  fix mt' u assume u: "tasks (h\<lparr>tasks := (tasks h)(mt \<mapsto> t')\<rparr>) mt' = Some u"
  have "\<exists>v. tasks h mt' = Some v \<and> dirty_list v = dirty_list u"
    using u t d by (cases "mt' = mt") auto
  then obtain v where v: "tasks h mt' = Some v" "dirty_list v = dirty_list u" by blast
  from dirty_inv_task [OF inv v(1)] v(2)
  show "\<exists>ps. dirty_chain (streams (h\<lparr>tasks := (tasks h)(mt \<mapsto> t')\<rparr>)) (dirty_list u) ps \<and>
     (\<forall>a\<in>set ps. \<forall>s. streams (h\<lparr>tasks := (tasks h)(mt \<mapsto> t')\<rparr>) a = Some s \<longrightarrow> montask s = mt')"
    by simp
next
  fix a x assume a: "streams (h\<lparr>tasks := (tasks h)(mt \<mapsto> t')\<rparr>) a = Some x"
    and nn: "dirty x \<noteq> NULL"
  then have "streams h a = Some x" by simp
  from dirty_inv_stream [OF inv this nn] obtain u ps where
    u: "tasks h (montask x) = Some u" "dirty_chain (streams h) (dirty_list u) ps" "a \<in> set ps"
    by blast
  with t d
  show "\<exists>t ps. tasks (h\<lparr>tasks := (tasks h)(mt \<mapsto> t')\<rparr>) (montask x) = Some t \<and>
     dirty_chain (streams (h\<lparr>tasks := (tasks h)(mt \<mapsto> t')\<rparr>)) (dirty_list t) ps \<and> a \<in> set ps"
    by (cases "montask x = mt") auto
qed

lemma dirty_inv_new_stream:
  assumes inv: "dirty_inv h" and fresh: "streams h a = None"
    and a: "a \<noteq> NULL" "a \<noteq> ST_DIRTY_END" and d: "dirty s = NULL"
  shows "dirty_inv (h\<lparr>streams := (streams h)(a \<mapsto> s)\<rparr>)"
proof (rule dirty_invI)
  from inv a show "streams (h\<lparr>streams := (streams h)(a \<mapsto> s)\<rparr>) NULL = None"
    by (auto simp: dirty_inv_NULL)
  from inv a show "streams (h\<lparr>streams := (streams h)(a \<mapsto> s)\<rparr>) ST_DIRTY_END = None"
    by (auto simp: dirty_inv_END)
next
  fix mt t assume "tasks (h\<lparr>streams := (streams h)(a \<mapsto> s)\<rparr>) mt = Some t"
  then have "tasks h mt = Some t" by simp
  from dirty_inv_task [OF inv this] obtain ps where
    ps: "dirty_chain (streams h) (dirty_list t) ps"
      "\<forall>a\<in>set ps. \<forall>s. streams h a = Some s \<longrightarrow> montask s = mt" by blast
  from ps(1) fresh have "a \<notin> set ps" by (auto dest: dirty_chain_allocated)
  with ps
  show "\<exists>ps. dirty_chain (streams (h\<lparr>streams := (streams h)(a \<mapsto> s)\<rparr>)) (dirty_list t) ps \<and>
     (\<forall>b\<in>set ps. \<forall>x. streams (h\<lparr>streams := (streams h)(a \<mapsto> s)\<rparr>) b = Some x \<longrightarrow> montask x = mt)"
    by (auto simp: dirty_chain_upd_other intro!: exI [of _ ps])
next
  fix b x assume b: "streams (h\<lparr>streams := (streams h)(a \<mapsto> s)\<rparr>) b = Some x"
    and nn: "dirty x \<noteq> NULL"
  with d have ba: "b \<noteq> a" by auto
  with b have "streams h b = Some x" by simp
  from dirty_inv_stream [OF inv this nn] obtain t ps where
    t: "tasks h (montask x) = Some t" "dirty_chain (streams h) (dirty_list t) ps" "b \<in> set ps"
    by blast
  from t(2) fresh have "a \<notin> set ps" by (auto dest: dirty_chain_allocated)
  with t
  show "\<exists>t ps. tasks (h\<lparr>streams := (streams h)(a \<mapsto> s)\<rparr>) (montask x) = Some t \<and>
     dirty_chain (streams (h\<lparr>streams := (streams h)(a \<mapsto> s)\<rparr>)) (dirty_list t) ps \<and> b \<in> set ps"
    by (auto simp: dirty_chain_upd_other intro!: exI [of _ ps])
qed

lemma dirty_inv_unlinked_notin:
  assumes inv: "dirty_inv h" and s: "streams h ms = Some s" and d: "dirty s = NULL"
    and ch: "dirty_chain (streams h) p ps"
  shows "ms \<notin> set ps"
proof
  assume "ms \<in> set ps"
  from dirty_chain_linked [OF dirty_inv_NULL [OF inv] ch this] s d show False by simp
qed

lemma dirty_inv_link:
  assumes inv: "dirty_inv h" and s: "streams h ms = Some s" and d: "dirty s = NULL"
    and mt0: "montask s = mt0" and t: "tasks h mt0 = Some t"
  shows "dirty_inv (h\<lparr>streams := (streams h)(ms \<mapsto> s\<lparr>dirty := dirty_list t\<rparr>),
                     tasks := (tasks h)(mt0 \<mapsto> t\<lparr>dirty_list := ms\<rparr>)\<rparr>)"
    (is "dirty_inv ?h'")
proof (rule dirty_invI)
  from inv s show "streams ?h' NULL = None" by (auto simp: dirty_inv_NULL)
  from inv s show "streams ?h' ST_DIRTY_END = None" by (auto simp: dirty_inv_END)
next
  have ms_end: "ms \<noteq> ST_DIRTY_END" using inv s by (auto simp: dirty_inv_END)
  have str: "streams ?h' = (streams h)(ms \<mapsto> s\<lparr>dirty := dirty_list t\<rparr>)" by simp
  fix mt u assume u: "tasks ?h' mt = Some u"
  show "\<exists>ps. dirty_chain (streams ?h') (dirty_list u) ps \<and>
     (\<forall>a\<in>set ps. \<forall>s. streams ?h' a = Some s \<longrightarrow> montask s = mt)"
  proof (cases "mt = mt0")
    case True
    with u have u': "dirty_list u = ms" by auto
    from dirty_inv_task [OF inv t] obtain ps where
      ps: "dirty_chain (streams h) (dirty_list t) ps"
        "\<forall>a\<in>set ps. \<forall>x. streams h a = Some x \<longrightarrow> montask x = mt0" by blast
    have notin: "ms \<notin> set ps" by (rule dirty_inv_unlinked_notin [OF inv s d ps(1)])
    have "dirty_chain (streams ?h') (dirty_list u) (ms # ps)"
      unfolding str u' using ps(1) notin ms_end by (simp add: dirty_chain_upd_other)
    moreover have "\<forall>a\<in>set (ms # ps). \<forall>x. streams ?h' a = Some x \<longrightarrow> montask x = mt"
      unfolding str using ps(2) True mt0 notin by auto
    ultimately show ?thesis by blast
  next
    case False
    with u have u': "tasks h mt = Some u" by simp
    from dirty_inv_task [OF inv u'] obtain ps where
      ps: "dirty_chain (streams h) (dirty_list u) ps"
        "\<forall>a\<in>set ps. \<forall>x. streams h a = Some x \<longrightarrow> montask x = mt" by blast
    have notin: "ms \<notin> set ps" by (rule dirty_inv_unlinked_notin [OF inv s d ps(1)])
    have "dirty_chain (streams ?h') (dirty_list u) ps"
      unfolding str using ps(1) notin by (simp add: dirty_chain_upd_other)
    moreover have "\<forall>a\<in>set ps. \<forall>x. streams ?h' a = Some x \<longrightarrow> montask x = mt"
      unfolding str using ps(2) notin by auto
    ultimately show ?thesis by blast
  qed
next
  have ms_end: "ms \<noteq> ST_DIRTY_END" using inv s by (auto simp: dirty_inv_END)
  have str: "streams ?h' = (streams h)(ms \<mapsto> s\<lparr>dirty := dirty_list t\<rparr>)" by simp
  have tsk: "tasks ?h' = (tasks h)(mt0 \<mapsto> t\<lparr>dirty_list := ms\<rparr>)" by simp
  from dirty_inv_task [OF inv t] obtain ps where
    ps: "dirty_chain (streams h) (dirty_list t) ps" by blast
  have notin: "ms \<notin> set ps" by (rule dirty_inv_unlinked_notin [OF inv s d ps])
  have new: "dirty_chain (streams ?h') ms (ms # ps)"
    unfolding str using ps notin ms_end by (simp add: dirty_chain_upd_other)
  fix a x assume a: "streams ?h' a = Some x" and nn: "dirty x \<noteq> NULL"
  show "\<exists>t ps. tasks ?h' (montask x) = Some t \<and>
     dirty_chain (streams ?h') (dirty_list t) ps \<and> a \<in> set ps"
  proof (cases "a = ms")
    case True
    with a mt0 have "montask x = mt0" by auto
    then have "tasks ?h' (montask x) = Some (t\<lparr>dirty_list := ms\<rparr>)" by simp
    moreover have "dirty_chain (streams ?h') (dirty_list (t\<lparr>dirty_list := ms\<rparr>)) (ms # ps)"
      using new by simp
    moreover have "a \<in> set (ms # ps)" using True by simp
    ultimately show ?thesis by blast
  next
    case False
    with a have x: "streams h a = Some x" by simp
    from dirty_inv_stream [OF inv x nn] obtain u qs where
      u: "tasks h (montask x) = Some u" "dirty_chain (streams h) (dirty_list u) qs" "a \<in> set qs"
      by blast
    show ?thesis
    proof (cases "montask x = mt0")
      case True
      with u t have "u = t" by simp
      with u ps have "qs = ps" by (auto dest: dirty_chain_unique)
      with u(3) have "a \<in> set (ms # ps)" by simp
      moreover have "tasks ?h' (montask x) = Some (t\<lparr>dirty_list := ms\<rparr>)" using True by simp
      moreover have "dirty_chain (streams ?h') (dirty_list (t\<lparr>dirty_list := ms\<rparr>)) (ms # ps)"
        using new by simp
      ultimately show ?thesis by blast
    next
      case False
      have "ms \<notin> set qs" by (rule dirty_inv_unlinked_notin [OF inv s d u(2)])
      then have "dirty_chain (streams ?h') (dirty_list u) qs"
        unfolding str using u(2) by (simp add: dirty_chain_upd_other)
      moreover have "tasks ?h' (montask x) = Some u" using False u(1) by simp
      ultimately show ?thesis using u(3) by blast
    qed
  qed
qed

lemma MarkDirty_inv:
  assumes "dirty_inv h" and "MarkDirty ms h = Inr h'"
  shows "dirty_inv h'"
proof -
  from assms(2) obtain s where s: "streams h ms = Some s"
    by (auto simp: MarkDirty_def split: option.splits)
  show ?thesis
  proof (cases "dirty s = NULL")
    case True
    with assms(2) s obtain t where t: "tasks h (montask s) = Some t"
      by (auto simp: MarkDirty_def Let_def split: option.splits)
    with assms(2) s True have "h' = h\<lparr>streams := (streams h)(ms \<mapsto> s\<lparr>dirty := dirty_list t\<rparr>),
                     tasks := (tasks h)(montask s \<mapsto> t\<lparr>dirty_list := ms\<rparr>)\<rparr>"
      by (simp add: MarkDirty_def Let_def)
    with dirty_inv_link [OF assms(1) s True refl t] show ?thesis by simp
  next
    case False
    with assms s show ?thesis by (simp add: MarkDirty_def Let_def)
  qed
qed

lemma LpelMonStreamClose_inv:
  assumes "dirty_inv h" and "LpelMonStreamClose ms h = Inr h'"
  shows "dirty_inv h'"
proof -
  from assms(2) obtain s where s: "streams h ms = Some s"
    and m: "MarkDirty ms (h\<lparr>streams := (streams h)(ms \<mapsto> s\<lparr>state := ST_CLOSED\<rparr>)\<rparr>) = Inr h'"
    by (auto simp: LpelMonStreamClose_def split: if_splits option.splits)
  from dirty_inv_upd_stream [OF assms(1) s, of "s\<lparr>state := ST_CLOSED\<rparr>"] m
  show ?thesis by (auto intro: MarkDirty_inv)
qed

lemma LpelMonStreamReplace_inv:
  assumes "dirty_inv h" and "LpelMonStreamReplace ms new_sid h = Inr h'"
  shows "dirty_inv h'"
proof -
  from assms(2) obtain s where s: "streams h ms = Some s"
    and m: "MarkDirty ms (h\<lparr>streams := (streams h)
              (ms \<mapsto> s\<lparr>state := ST_REPLACED, sid := new_sid\<rparr>)\<rparr>) = Inr h'"
    by (auto simp: LpelMonStreamReplace_def split: if_splits option.splits)
  from dirty_inv_upd_stream [OF assms(1) s, of "s\<lparr>state := ST_REPLACED, sid := new_sid\<rparr>"] m
  show ?thesis by (auto intro: MarkDirty_inv)
qed

lemma LpelMonStreamMoved_inv:
  assumes "dirty_inv h" and "LpelMonStreamMoved ms h = Inr h'"
  shows "dirty_inv h'"
proof -
  from assms(2) obtain s where s: "streams h ms = Some s"
    and m: "MarkDirty ms (h\<lparr>streams := (streams h)
              (ms \<mapsto> s\<lparr>counter := counter s + 1,
                        event_flags := event_flags s OR ST_MOVED\<rparr>)\<rparr>) = Inr h'"
    by (auto simp: LpelMonStreamMoved_def split: if_splits option.splits)
  from dirty_inv_upd_stream [OF assms(1) s,
      of "s\<lparr>counter := counter s + 1, event_flags := event_flags s OR ST_MOVED\<rparr>"] m
  show ?thesis by (auto intro: MarkDirty_inv)
qed

lemma LpelMonStreamBlockon_inv:
  assumes "dirty_inv h" and "LpelMonStreamBlockon ms h = Inr h'"
  shows "dirty_inv h'"
proof -
  from assms(2) obtain s h1 t c where s: "streams h ms = Some s"
    and m: "MarkDirty ms (h\<lparr>streams := (streams h)
              (ms \<mapsto> s\<lparr>event_flags := event_flags s OR ST_BLOCKON\<rparr>)\<rparr>) = Inr h1"
    and t: "tasks h1 (montask s) = Some t"
    and h': "h' = h1\<lparr>tasks := (tasks h1)(montask s \<mapsto> t\<lparr>blockon := c\<rparr>)\<rparr>"
    by (auto simp: LpelMonStreamBlockon_def split: if_splits option.splits sum.splits)
  from dirty_inv_upd_stream [OF assms(1) s,
      of "s\<lparr>event_flags := event_flags s OR ST_BLOCKON\<rparr>"] m
  have "dirty_inv h1" by (auto intro: MarkDirty_inv)
  from dirty_inv_upd_task [OF this t, of "t\<lparr>blockon := c\<rparr>"] h'
  show ?thesis by simp
qed

lemma LpelMonStreamWakeup_inv:
  assumes "dirty_inv h" and "LpelMonStreamWakeup ms h = Inr h'"
  shows "dirty_inv h'"
proof -
  from assms(2) obtain s where s: "streams h ms = Some s"
    and h': "h' = h\<lparr>streams := (streams h)
              (ms \<mapsto> s\<lparr>event_flags := event_flags s OR ST_WAKEUP\<rparr>)\<rparr>"
    by (auto simp: LpelMonStreamWakeup_def split: if_splits option.splits)
  from dirty_inv_upd_stream [OF assms(1) s,
      of "s\<lparr>event_flags := event_flags s OR ST_WAKEUP\<rparr>"] h'
  show ?thesis by simp
qed

lemma LpelMonStreamOpen_inv:
  assumes "dirty_inv h" and "LpelMonStreamOpen a mt sid' mode' h = Inr (p, h')"
  shows "dirty_inv h'"
proof (cases "h' = h")
  case True
  with assms(1) show ?thesis by simp
next
  case False
  with assms(2) have fresh: "streams h a = None" "a \<noteq> NULL" "a \<noteq> ST_DIRTY_END"
    and m: "MarkDirty a (h\<lparr>streams := (streams h)
              (a \<mapsto> \<lparr>montask = mt, dirty = NULL, mode = mode', state = ST_OPENED,
                      sid = sid', counter = 0, event_flags = 0\<rparr>)\<rparr>) = Inr h'"
    by (auto simp: LpelMonStreamOpen_def Let_def split: if_splits option.splits sum.splits)
  from dirty_inv_new_stream [OF assms(1) fresh, of "\<lparr>montask = mt, dirty = NULL, mode = mode',
      state = ST_OPENED, sid = sid', counter = 0, event_flags = 0\<rparr>"] m
  show ?thesis by (auto intro: MarkDirty_inv)
qed

lemma mon_step_inv:
  "dirty_inv h \<Longrightarrow> mon_step e h = Inr h' \<Longrightarrow> dirty_inv h'"
  by (cases e)
    (auto intro: LpelMonStreamOpen_inv LpelMonStreamClose_inv LpelMonStreamReplace_inv
      LpelMonStreamMoved_inv LpelMonStreamBlockon_inv LpelMonStreamWakeup_inv
      split: sum.splits)

lemma mon_run_inv:
  "dirty_inv h \<Longrightarrow> mon_run es h = Inr h' \<Longrightarrow> dirty_inv h'"
proof (induction es arbitrary: h)
  case Nil
  then show ?case by simp
next
  case (Cons e es)
  from Cons.prems(2) obtain h1 where "mon_step e h = Inr h1" "mon_run es h1 = Inr h'"
    by (auto split: sum.splits)
  with Cons.prems(1) Cons.IH show ?case by (blast intro: mon_step_inv)
qed

subsection \<open>Draining the dirty list\<close>

lemma states_distinct:
  "ST_OPENED \<noteq> ST_CLOSED" "ST_REPLACED \<noteq> ST_CLOSED" "ST_INUSE \<noteq> ST_CLOSED"
  "ST_INUSE \<noteq> ST_OPENED" "ST_INUSE \<noteq> ST_REPLACED" "ST_OPENED \<noteq> ST_REPLACED"
  by (simp_all add: ST_OPENED_def ST_CLOSED_def ST_REPLACED_def ST_INUSE_def)

lemma drain_all_Nil: "drain_all m [] = m"
  by (rule ext) (simp add: drain_all_def)

lemma drain_all_Cons:
  "m a = Some s \<Longrightarrow> a \<notin> set as \<Longrightarrow>
   drain_all (m(a := drained s)) as = drain_all m (a # as)"
  by (rule ext) (auto simp: drain_all_def)

lemma entry_text_upd:
  "a \<notin> set as \<Longrightarrow> map (entry_text (m(a := x))) as = map (entry_text m) as"
  by (induction as) (auto simp: entry_text_def)

lemma fprintf_Some:
  "ctxs h file = Some c \<Longrightarrow>
   fprintf file txt h = h\<lparr>ctxs := (ctxs h)(file \<mapsto> c\<lparr>outfile := outfile c @ txt\<rparr>)\<rparr>"
  by (simp add: fprintf_def)

lemma PrintDirtyList_loop_step:
  assumes s: "streams h a = Some s" and a: "a \<noteq> ST_DIRTY_END" and mt: "montask s = mt"
    and ok: "state_ok s" and c: "ctxs h file = Some c"
  shows "PrintDirtyList_loop mt file a h =
     PrintDirtyList_loop mt file (dirty s)
       (h\<lparr>ctxs := (ctxs h)(file \<mapsto> c\<lparr>outfile := outfile c @ print_entry s\<rparr>),
          streams := (streams h)(a := drained s)\<rparr>)"
proof -
  consider "state s = ST_OPENED \<or> state s = ST_REPLACED" | "state s = ST_INUSE"
    | "state s = ST_CLOSED" using ok by (auto simp: state_ok_def)
  then show ?thesis
  proof cases
    case 1
    then show ?thesis
      using s a mt c states_distinct
      by (subst PrintDirtyList_loop.simps) (auto simp: fprintf_Some drained_def Let_def)
  next
    case 2
    then have e: "s\<lparr>state := ST_INUSE, dirty := NULL, event_flags := 0\<rparr>
        = s\<lparr>dirty := NULL, event_flags := 0\<rparr>"
      by (cases s) simp
    from 2 show ?thesis
      using s a mt c states_distinct
      by (subst PrintDirtyList_loop.simps) (auto simp: fprintf_Some drained_def Let_def e)
  next
    case 3
    then show ?thesis
      using s a mt c states_distinct
      by (subst PrintDirtyList_loop.simps) (auto simp: fprintf_Some drained_def Let_def)
  qed
qed

lemma PrintDirtyList_loop_drains:
  assumes "dirty_chain (streams h) ms ps"
    and "\<forall>a\<in>set ps. \<forall>s. streams h a = Some s \<longrightarrow> montask s = mt \<and> state_ok s"
    and "ctxs h file = Some c"
  shows "PrintDirtyList_loop mt file ms h =
     Some (Inr (h\<lparr>ctxs := (ctxs h)
                      (file \<mapsto> c\<lparr>outfile := outfile c @ concat (map (entry_text (streams h)) ps)\<rparr>),
                    streams := drain_all (streams h) ps\<rparr>))"
  using assms
proof (induction ps arbitrary: h ms c)
  case Nil
  then have "ms = ST_DIRTY_END" by simp
  moreover have "(ctxs h)(file \<mapsto> c) = ctxs h" using Nil.prems(3) by (simp add: fun_upd_idem)
  ultimately show ?case
    by (subst PrintDirtyList_loop.simps) (simp add: drain_all_Nil)
next
  case (Cons a as)
  from Cons.prems(1) obtain s where ms: "ms = a" and a: "a \<noteq> ST_DIRTY_END"
    and s: "streams h a = Some s" and tl: "dirty_chain (streams h) (dirty s) as"
    by (auto split: option.splits)
  from Cons.prems(1) have "distinct (a # as)" by (rule dirty_chain_distinct)
  then have notin: "a \<notin> set as" by simp
  from Cons.prems(2) s have mt: "montask s = mt" and ok: "state_ok s" by auto
  let ?c = "c\<lparr>outfile := outfile c @ print_entry s\<rparr>"
  let ?h = "h\<lparr>ctxs := (ctxs h)(file \<mapsto> ?c), streams := (streams h)(a := drained s)\<rparr>"
  have step: "PrintDirtyList_loop mt file ms h = PrintDirtyList_loop mt file (dirty s) ?h"
    unfolding ms by (rule PrintDirtyList_loop_step [OF s a mt ok Cons.prems(3)])
  have c1: "dirty_chain (streams ?h) (dirty s) as"
    using tl notin by (simp add: dirty_chain_upd_other)
  have c2: "\<forall>b\<in>set as. \<forall>x. streams ?h b = Some x \<longrightarrow> montask x = mt \<and> state_ok x"
    using Cons.prems(2) notin by auto
  have c3: "ctxs ?h file = Some ?c" by simp
  have etx: "entry_text (streams h) a = print_entry s" using s by (simp add: entry_text_def)
  show ?case
    unfolding step Cons.IH [OF c1 c2 c3]
    using notin s
    by (simp add: drain_all_Cons entry_text_upd etx) (simp add: fun_upd_def)
qed

subsection \<open>The trace line of a stop\<close>

lemma FLAG_STREAMS_upd [simp]:
  "FLAG_STREAMS (t\<lparr>times_stop := x\<rparr>) = FLAG_STREAMS t"
  "FLAG_STREAMS (t\<lparr>times_total := y\<rparr>) = FLAG_STREAMS t"
  by (simp_all add: FLAG_STREAMS_def)

lemma stop_task_fields [simp]:
  "ctx (stop_task T now t) = ctx t" "dirty_list (stop_task T now t) = dirty_list t"
  "name (stop_task T now t) = name t" "disp (stop_task T now t) = disp t"
  "tid (stop_task T now t) = tid t" "mon_flags (stop_task T now t) = mon_flags t"
  "blockon (stop_task T now t) = blockon t"
  by (simp_all add: stop_task_def)

lemma LpelMonTaskStop_unfold:
  assumes t: "tasks h mt = Some t" and c: "ctxs h (ctx t) = Some c"
  shows "LpelMonTaskStop T now mt st h =
     (let h7 = h\<lparr>ctxs := (ctxs h)(ctx t \<mapsto>
                   c\<lparr>outfile := outfile c @ stop_head T now (monitoring_begin h) t st\<rparr>),
                 tasks := (tasks h)(mt \<mapsto> stop_task T now t)\<rparr>
      in if FLAG_STREAMS t then
           (case PrintDirtyList mt (fprintf (ctx t) ''['' h7) of
              None \<Rightarrow> None
            | Some (Inl e) \<Rightarrow> Some (Inl e)
            | Some (Inr h8) \<Rightarrow>
                Some (Inr (fprintf (ctx t) [CHR 0x0A] (fprintf (ctx t) ''] '' h8))))
         else Some (Inr (fprintf (ctx t) [CHR 0x0A] h7)))"
  by (cases "FLAG_TIMES t"; cases "name t = []"; cases "st = TASK_BLOCKED")
    (simp_all add: LpelMonTaskStop_def fprintf_def stop_head_def stop_task_def Let_def t c)


lemma PrintDirtyList_drains:
  assumes t: "tasks h mt = Some t" and c: "ctxs h (ctx t) = Some c"
    and ch: "dirty_chain (streams h) (dirty_list t) ps"
    and ok: "\<forall>a\<in>set ps. \<forall>s. streams h a = Some s \<longrightarrow> montask s = mt \<and> state_ok s"
  shows "PrintDirtyList mt h =
     Some (Inr (h\<lparr>ctxs := (ctxs h)(ctx t \<mapsto>
                      c\<lparr>outfile := outfile c @ concat (map (entry_text (streams h)) ps)\<rparr>),
                    streams := drain_all (streams h) ps,
                    tasks := (tasks h)(mt \<mapsto> t\<lparr>dirty_list := ST_DIRTY_END\<rparr>)\<rparr>))"
  by (simp add: PrintDirtyList_def t c PrintDirtyList_loop_drains [OF ch ok c])

lemma LpelMonTaskStop_streams:
  assumes t: "tasks h mt = Some t" and c: "ctxs h (ctx t) = Some c"
    and fl: "FLAG_STREAMS t"
    and ch: "dirty_chain (streams h) (dirty_list t) ps"
    and ok: "\<forall>a\<in>set ps. \<forall>s. streams h a = Some s \<longrightarrow> montask s = mt \<and> state_ok s"
  shows "LpelMonTaskStop T now mt st h =
     Some (Inr (h\<lparr>ctxs := (ctxs h)(ctx t \<mapsto>
                      c\<lparr>outfile := outfile c @ stop_head T now (monitoring_begin h) t st @
                         ''['' @ concat (map (entry_text (streams h)) ps) @ ''] '' @
                         [CHR 0x0A]\<rparr>),
                    streams := drain_all (streams h) ps,
                    tasks := (tasks h)
                      (mt \<mapsto> (stop_task T now t)\<lparr>dirty_list := ST_DIRTY_END\<rparr>)\<rparr>))"
proof -
  let ?c7 = "c\<lparr>outfile := outfile c @ stop_head T now (monitoring_begin h) t st @ ''[''\<rparr>"
  let ?h7 = "h\<lparr>ctxs := (ctxs h)(ctx t \<mapsto> ?c7),
               tasks := (tasks h)(mt \<mapsto> stop_task T now t)\<rparr>"
  have p: "fprintf (ctx t) ''[''
      (h\<lparr>ctxs := (ctxs h)(ctx t \<mapsto>
            c\<lparr>outfile := outfile c @ stop_head T now (monitoring_begin h) t st\<rparr>),
          tasks := (tasks h)(mt \<mapsto> stop_task T now t)\<rparr>) = ?h7"
    by (simp add: fprintf_def)
  have t7: "tasks ?h7 mt = Some (stop_task T now t)" by simp
  have c7: "ctxs ?h7 (ctx (stop_task T now t)) = Some ?c7" by simp
  have ch7: "dirty_chain (streams ?h7) (dirty_list (stop_task T now t)) ps"
    using ch by simp
  have ok7: "\<forall>a\<in>set ps. \<forall>s. streams ?h7 a = Some s \<longrightarrow> montask s = mt \<and> state_ok s"
    using ok by simp
  show ?thesis
    unfolding LpelMonTaskStop_unfold [OF t c] Let_def p
      PrintDirtyList_drains [OF t7 c7 ch7 ok7]
    using fl by (simp add: fprintf_def)
qed

lemma LpelMonTaskStop_no_streams:
  assumes t: "tasks h mt = Some t" and c: "ctxs h (ctx t) = Some c"
    and fl: "\<not> FLAG_STREAMS t"
  shows "LpelMonTaskStop T now mt st h =
     Some (Inr (h\<lparr>ctxs := (ctxs h)(ctx t \<mapsto>
                      c\<lparr>outfile := outfile c @ stop_head T now (monitoring_begin h) t st @
                         [CHR 0x0A]\<rparr>),
                    tasks := (tasks h)(mt \<mapsto> stop_task T now t)\<rparr>))"
  unfolding LpelMonTaskStop_unfold [OF t c] Let_def
  using fl by (simp add: fprintf_def)

subsection \<open>What the stream events leave alone\<close>

lemmas stream_ops = LpelMonStreamOpen_def LpelMonStreamClose_def LpelMonStreamReplace_def
  LpelMonStreamMoved_def LpelMonStreamBlockon_def LpelMonStreamWakeup_def

lemma MarkDirty_ctxs:
  "MarkDirty ms h = Inr h' \<Longrightarrow> ctxs h' = ctxs h \<and> monitoring_begin h' = monitoring_begin h"
  by (auto simp: MarkDirty_def Let_def split: option.splits if_splits)

lemma MarkDirty_streams:
  "MarkDirty ms h = Inr h' \<Longrightarrow>
   \<exists>s d. streams h ms = Some s \<and> streams h' = (streams h)(ms \<mapsto> s\<lparr>dirty := d\<rparr>)"
proof -
  assume a: "MarkDirty ms h = Inr h'"
  then obtain s where s: "streams h ms = Some s"
    by (auto simp: MarkDirty_def split: option.splits)
  show ?thesis
  proof (cases "dirty s = NULL")
    case True
    with a s show ?thesis
      by (auto simp: MarkDirty_def Let_def split: option.splits)
  next
    case False
    have "(streams h)(ms \<mapsto> s\<lparr>dirty := dirty s\<rparr>) = streams h"
      using s by (simp add: fun_upd_idem)
    with a s False show ?thesis
      by (auto simp: MarkDirty_def Let_def intro!: exI [of _ "dirty s"])
  qed
qed

lemma MarkDirty_tasks:
  "MarkDirty ms h = Inr h' \<Longrightarrow>
   map_option task_static (tasks h' mt) = map_option task_static (tasks h mt)"
  by (auto simp: MarkDirty_def Let_def task_static_def split: option.splits if_splits)


lemma mon_step_ctxs:
  "mon_step e h = Inr h' \<Longrightarrow> ctxs h' = ctxs h \<and> monitoring_begin h' = monitoring_begin h"
  by (cases e)
    (auto simp: stream_ops Let_def dest!: MarkDirty_ctxs split: option.splits if_splits sum.splits)

lemma mon_step_tasks:
  "mon_step e h = Inr h' \<Longrightarrow>
   map_option task_static (tasks h' mt) = map_option task_static (tasks h mt)"
  by (cases e)
    (auto simp: stream_ops Let_def task_static_def dest!: MarkDirty_tasks [where mt = mt]
      split: option.splits if_splits sum.splits)


lemma state_ok_upd [simp]:
  "state_ok (s\<lparr>dirty := d\<rparr>) = state_ok s"
  "state_ok (s\<lparr>event_flags := f\<rparr>) = state_ok s"
  "state_ok (s\<lparr>counter := n\<rparr>) = state_ok s"
  "state_ok (s\<lparr>sid := i\<rparr>) = state_ok s"
  by (simp_all add: state_ok_def)

lemma state_ok_const [simp]:
  "state_ok (s\<lparr>state := ST_INUSE\<rparr>)" "state_ok (s\<lparr>state := ST_OPENED\<rparr>)"
  "state_ok (s\<lparr>state := ST_CLOSED\<rparr>)" "state_ok (s\<lparr>state := ST_REPLACED\<rparr>)"
  by (simp_all add: state_ok_def)

lemma MarkDirty_states_ok:
  assumes ok: "states_ok h" and m: "MarkDirty ms h = Inr h'"
  shows "states_ok h'"
proof -
  from MarkDirty_streams [OF m] obtain s d where s: "streams h ms = Some s"
    and e: "streams h' = (streams h)(ms \<mapsto> s\<lparr>dirty := d\<rparr>)" by blast
  show ?thesis
    unfolding states_ok_def
  proof (intro allI impI)
    fix a x assume x: "streams h' a = Some x"
    show "state_ok x"
    proof (cases "a = ms")
      case True
      with x e have "x = s\<lparr>dirty := d\<rparr>" by simp
      with ok s show ?thesis by (simp add: states_ok_def)
    next
      case False
      with x e have "streams h a = Some x" by simp
      with ok show ?thesis by (simp add: states_ok_def)
    qed
  qed
qed

lemma MarkDirty_modes_ok:
  assumes ok: "modes_ok h" and m: "MarkDirty ms h = Inr h'"
  shows "modes_ok h'"
proof -
  from MarkDirty_streams [OF m] obtain s d where s: "streams h ms = Some s"
    and e: "streams h' = (streams h)(ms \<mapsto> s\<lparr>dirty := d\<rparr>)" by blast
  show ?thesis
    unfolding modes_ok_def
  proof (intro allI impI)
    fix a x assume x: "streams h' a = Some x"
    show "mode_ok (mode x)"
    proof (cases "a = ms")
      case True
      with x e have "x = s\<lparr>dirty := d\<rparr>" by simp
      with ok s show ?thesis by (simp add: modes_ok_def)
    next
      case False
      with x e have "streams h a = Some x" by simp
      with ok show ?thesis by (simp add: modes_ok_def)
    qed
  qed
qed

lemma states_ok_upd:
  "states_ok h \<Longrightarrow> state_ok s \<Longrightarrow> states_ok (h\<lparr>streams := (streams h)(a \<mapsto> s)\<rparr>)"
  by (simp add: states_ok_def)

lemma modes_ok_upd:
  "modes_ok h \<Longrightarrow> mode_ok (mode s) \<Longrightarrow> modes_ok (h\<lparr>streams := (streams h)(a \<mapsto> s)\<rparr>)"
  by (simp add: modes_ok_def)

lemma states_ok_tasks_upd [simp]: "states_ok (h\<lparr>tasks := x\<rparr>) = states_ok h"
  by (simp add: states_ok_def)

lemma modes_ok_tasks_upd [simp]: "modes_ok (h\<lparr>tasks := x\<rparr>) = modes_ok h"
  by (simp add: modes_ok_def)

lemma states_okD: "states_ok h \<Longrightarrow> streams h a = Some s \<Longrightarrow> state_ok s"
  by (simp add: states_ok_def)

lemma modes_okD: "modes_ok h \<Longrightarrow> streams h a = Some s \<Longrightarrow> mode_ok (mode s)"
  by (simp add: modes_ok_def)

lemma mon_step_states_ok:
  assumes ok: "states_ok h" and st: "mon_step e h = Inr h'"
  shows "states_ok h'"
proof (cases e)
  case (StreamOpen a mt sid' mode')
  show ?thesis
  proof (cases "h' = h")
    case True
    with ok show ?thesis by simp
  next
    case False
    let ?s = "\<lparr>montask = mt, dirty = NULL, mode = mode', state = ST_OPENED,
                sid = sid', counter = 0, event_flags = 0\<rparr>"
    from False st StreamOpen have m:
      "MarkDirty a (h\<lparr>streams := (streams h)(a \<mapsto> ?s)\<rparr>) = Inr h'"
      by (auto simp: LpelMonStreamOpen_def Let_def split: if_splits option.splits sum.splits)
    have "state_ok ?s" by (simp add: state_ok_def)
    from MarkDirty_states_ok [OF states_ok_upd [OF ok this] m] show ?thesis .
  qed
next
  case (StreamClose ms)
  with st obtain s where m:
    "MarkDirty ms (h\<lparr>streams := (streams h)(ms \<mapsto> s\<lparr>state := ST_CLOSED\<rparr>)\<rparr>) = Inr h'"
    by (auto simp: LpelMonStreamClose_def split: if_splits option.splits)
  have "state_ok (s\<lparr>state := ST_CLOSED\<rparr>)" by simp
  from MarkDirty_states_ok [OF states_ok_upd [OF ok this] m] show ?thesis .
next
  case (StreamReplace ms new_sid)
  with st obtain s where m:
    "MarkDirty ms (h\<lparr>streams := (streams h)
        (ms \<mapsto> s\<lparr>state := ST_REPLACED, sid := new_sid\<rparr>)\<rparr>) = Inr h'"
    by (auto simp: LpelMonStreamReplace_def split: if_splits option.splits)
  have "state_ok (s\<lparr>state := ST_REPLACED, sid := new_sid\<rparr>)" by simp
  from MarkDirty_states_ok [OF states_ok_upd [OF ok this] m] show ?thesis .
next
  case (StreamMoved ms)
  with st obtain s where s: "streams h ms = Some s" and m:
    "MarkDirty ms (h\<lparr>streams := (streams h)
        (ms \<mapsto> s\<lparr>counter := counter s + 1,
                  event_flags := event_flags s OR ST_MOVED\<rparr>)\<rparr>) = Inr h'"
    by (auto simp: LpelMonStreamMoved_def split: if_splits option.splits)
  have "state_ok (s\<lparr>counter := counter s + 1, event_flags := event_flags s OR ST_MOVED\<rparr>)"
    using states_okD [OF ok s] by simp
  from MarkDirty_states_ok [OF states_ok_upd [OF ok this] m] show ?thesis .
next
  case (StreamBlockon ms)
  with st obtain s h1 t c where s: "streams h ms = Some s"
    and m: "MarkDirty ms (h\<lparr>streams := (streams h)
              (ms \<mapsto> s\<lparr>event_flags := event_flags s OR ST_BLOCKON\<rparr>)\<rparr>) = Inr h1"
    and h': "h' = h1\<lparr>tasks := (tasks h1)(montask s \<mapsto> t\<lparr>blockon := c\<rparr>)\<rparr>"
    by (auto simp: LpelMonStreamBlockon_def split: if_splits option.splits sum.splits)
  have "state_ok (s\<lparr>event_flags := event_flags s OR ST_BLOCKON\<rparr>)"
    using states_okD [OF ok s] by simp
  from MarkDirty_states_ok [OF states_ok_upd [OF ok this] m] have "states_ok h1" .
  with h' show ?thesis by simp
next
  case (StreamWakeup ms)
  with st obtain s where s: "streams h ms = Some s"
    and h': "h' = h\<lparr>streams := (streams h)
              (ms \<mapsto> s\<lparr>event_flags := event_flags s OR ST_WAKEUP\<rparr>)\<rparr>"
    by (auto simp: LpelMonStreamWakeup_def split: if_splits option.splits)
  have "state_ok (s\<lparr>event_flags := event_flags s OR ST_WAKEUP\<rparr>)"
    using states_okD [OF ok s] by simp
  from states_ok_upd [OF ok this] h' show ?thesis by simp
qed

lemma mon_step_modes_ok:
  assumes ok: "modes_ok h" and ev: "event_ok e" and st: "mon_step e h = Inr h'"
  shows "modes_ok h'"
proof (cases e)
  case (StreamOpen a mt sid' mode')
  show ?thesis
  proof (cases "h' = h")
    case True
    with ok show ?thesis by simp
  next
    case False
    let ?s = "\<lparr>montask = mt, dirty = NULL, mode = mode', state = ST_OPENED,
                sid = sid', counter = 0, event_flags = 0\<rparr>"
    from False st StreamOpen have m:
      "MarkDirty a (h\<lparr>streams := (streams h)(a \<mapsto> ?s)\<rparr>) = Inr h'"
      by (auto simp: LpelMonStreamOpen_def Let_def split: if_splits option.splits sum.splits)
    have "mode_ok (mode ?s)" using ev StreamOpen by simp
    from MarkDirty_modes_ok [OF modes_ok_upd [OF ok this] m] show ?thesis .
  qed
next
  case (StreamClose ms)
  with st obtain s where s: "streams h ms = Some s" and m:
    "MarkDirty ms (h\<lparr>streams := (streams h)(ms \<mapsto> s\<lparr>state := ST_CLOSED\<rparr>)\<rparr>) = Inr h'"
    by (auto simp: LpelMonStreamClose_def split: if_splits option.splits)
  have "mode_ok (mode (s\<lparr>state := ST_CLOSED\<rparr>))" using modes_okD [OF ok s] by simp
  from MarkDirty_modes_ok [OF modes_ok_upd [OF ok this] m] show ?thesis .
next
  case (StreamReplace ms new_sid)
  with st obtain s where s: "streams h ms = Some s" and m:
    "MarkDirty ms (h\<lparr>streams := (streams h)
        (ms \<mapsto> s\<lparr>state := ST_REPLACED, sid := new_sid\<rparr>)\<rparr>) = Inr h'"
    by (auto simp: LpelMonStreamReplace_def split: if_splits option.splits)
  have "mode_ok (mode (s\<lparr>state := ST_REPLACED, sid := new_sid\<rparr>))"
    using modes_okD [OF ok s] by simp
  from MarkDirty_modes_ok [OF modes_ok_upd [OF ok this] m] show ?thesis .
next
  case (StreamMoved ms)
  with st obtain s where s: "streams h ms = Some s" and m:
    "MarkDirty ms (h\<lparr>streams := (streams h)
        (ms \<mapsto> s\<lparr>counter := counter s + 1,
                  event_flags := event_flags s OR ST_MOVED\<rparr>)\<rparr>) = Inr h'"
    by (auto simp: LpelMonStreamMoved_def split: if_splits option.splits)
  have "mode_ok (mode (s\<lparr>counter := counter s + 1,
      event_flags := event_flags s OR ST_MOVED\<rparr>))"
    using modes_okD [OF ok s] by simp
  from MarkDirty_modes_ok [OF modes_ok_upd [OF ok this] m] show ?thesis .
next
  case (StreamBlockon ms)
  with st obtain s h1 t c where s: "streams h ms = Some s"
    and m: "MarkDirty ms (h\<lparr>streams := (streams h)
              (ms \<mapsto> s\<lparr>event_flags := event_flags s OR ST_BLOCKON\<rparr>)\<rparr>) = Inr h1"
    and h': "h' = h1\<lparr>tasks := (tasks h1)(montask s \<mapsto> t\<lparr>blockon := c\<rparr>)\<rparr>"
    by (auto simp: LpelMonStreamBlockon_def split: if_splits option.splits sum.splits)
  have "mode_ok (mode (s\<lparr>event_flags := event_flags s OR ST_BLOCKON\<rparr>))"
    using modes_okD [OF ok s] by simp
  from MarkDirty_modes_ok [OF modes_ok_upd [OF ok this] m] have "modes_ok h1" .
  with h' show ?thesis by simp
next
  case (StreamWakeup ms)
  with st obtain s where s: "streams h ms = Some s"
    and h': "h' = h\<lparr>streams := (streams h)
              (ms \<mapsto> s\<lparr>event_flags := event_flags s OR ST_WAKEUP\<rparr>)\<rparr>"
    by (auto simp: LpelMonStreamWakeup_def split: if_splits option.splits)
  have "mode_ok (mode (s\<lparr>event_flags := event_flags s OR ST_WAKEUP\<rparr>))"
    using modes_okD [OF ok s] by simp
  from modes_ok_upd [OF ok this] h' show ?thesis by simp
qed

lemma MarkDirty_blockon:
  "MarkDirty ms h = Inr h' \<Longrightarrow>
   map_option blockon (tasks h' mt) = map_option blockon (tasks h mt)"
  by (auto simp: MarkDirty_def Let_def split: option.splits if_splits)

lemma mon_step_blockon:
  assumes st: "mon_step e h = Inr h'" and t: "tasks h mt = Some t" and b: "blockon_ok (blockon t)"
  shows "\<exists>t'. tasks h' mt = Some t' \<and> blockon_ok (blockon t')"
proof -
  from mon_step_tasks [OF st, of mt] t obtain t' where t': "tasks h' mt = Some t'" by auto
  have "blockon_ok (blockon t')"
  proof (cases e)
    case (StreamBlockon ms)
    with st obtain s h1 u c where
      m: "MarkDirty ms (h\<lparr>streams := (streams h)
              (ms \<mapsto> s\<lparr>event_flags := event_flags s OR ST_BLOCKON\<rparr>)\<rparr>) = Inr h1"
      and c: "c = CHR ''i'' \<or> c = CHR ''o''"
      and h': "h' = h1\<lparr>tasks := (tasks h1)(montask s \<mapsto> u\<lparr>blockon := c\<rparr>)\<rparr>"
      by (auto simp: LpelMonStreamBlockon_def split: if_splits option.splits sum.splits)
    from MarkDirty_blockon [OF m, of mt] t
    have "map_option blockon (tasks h1 mt) = Some (blockon t)" by simp
    with h' t' c b show ?thesis
      by (cases "mt = montask s") (auto simp: blockon_ok_def)
  next
    case (StreamOpen a mt' sid' mode')
    with st t t' b show ?thesis
      by (auto simp: LpelMonStreamOpen_def Let_def dest!: MarkDirty_blockon [where mt = mt]
          split: if_splits option.splits sum.splits)
  next
    case (StreamClose ms)
    with st t t' b show ?thesis
      by (auto simp: LpelMonStreamClose_def dest!: MarkDirty_blockon [where mt = mt]
          split: if_splits option.splits)
  next
    case (StreamReplace ms new_sid)
    with st t t' b show ?thesis
      by (auto simp: LpelMonStreamReplace_def dest!: MarkDirty_blockon [where mt = mt]
          split: if_splits option.splits)
  next
    case (StreamMoved ms)
    with st t t' b show ?thesis
      by (auto simp: LpelMonStreamMoved_def dest!: MarkDirty_blockon [where mt = mt]
          split: if_splits option.splits)
  next
    case (StreamWakeup ms)
    with st t t' b show ?thesis
      by (auto simp: LpelMonStreamWakeup_def split: if_splits option.splits)
  qed
  with t' show ?thesis by blast
qed

subsection \<open>Sequences of events\<close>

lemma mon_run_Cons:
  "mon_run (e # es) h = Inr h' \<Longrightarrow> \<exists>h1. mon_step e h = Inr h1 \<and> mon_run es h1 = Inr h'"
  by (auto split: sum.splits)

lemma mon_run_ctxs:
  "mon_run es h = Inr h' \<Longrightarrow> ctxs h' = ctxs h \<and> monitoring_begin h' = monitoring_begin h"
proof (induction es arbitrary: h)
  case Nil
  then show ?case by simp
next
  case (Cons e es)
  from mon_run_Cons [OF Cons.prems] obtain h1 where
    "mon_step e h = Inr h1" "mon_run es h1 = Inr h'" by blast
  with Cons.IH [of h1] mon_step_ctxs [of e h h1] show ?case by simp
qed

lemma mon_run_tasks:
  "mon_run es h = Inr h' \<Longrightarrow>
   map_option task_static (tasks h' mt) = map_option task_static (tasks h mt)"
proof (induction es arbitrary: h)
  case Nil
  then show ?case by simp
next
  case (Cons e es)
  from mon_run_Cons [OF Cons.prems] obtain h1 where
    "mon_step e h = Inr h1" "mon_run es h1 = Inr h'" by blast
  with Cons.IH [of h1] mon_step_tasks [of e h h1 mt] show ?case by simp
qed

lemma mon_run_states_ok:
  "states_ok h \<Longrightarrow> mon_run es h = Inr h' \<Longrightarrow> states_ok h'"
proof (induction es arbitrary: h)
  case Nil
  then show ?case by simp
next
  case (Cons e es)
  from mon_run_Cons [OF Cons.prems(2)] obtain h1 where
    "mon_step e h = Inr h1" "mon_run es h1 = Inr h'" by blast
  with Cons.IH [of h1] mon_step_states_ok [OF Cons.prems(1)] show ?case by blast
qed

lemma mon_run_modes_ok:
  "modes_ok h \<Longrightarrow> list_all event_ok es \<Longrightarrow> mon_run es h = Inr h' \<Longrightarrow> modes_ok h'"
proof (induction es arbitrary: h)
  case Nil
  then show ?case by simp
next
  case (Cons e es)
  from mon_run_Cons [OF Cons.prems(3)] obtain h1 where
    h1: "mon_step e h = Inr h1" "mon_run es h1 = Inr h'" by blast
  from Cons.prems(2) have "event_ok e" "list_all event_ok es" by simp_all
  with Cons.IH [of h1] mon_step_modes_ok [OF Cons.prems(1) _ h1(1)] h1(2) show ?case by blast
qed

lemma mon_run_blockon:
  "mon_run es h = Inr h' \<Longrightarrow> tasks h mt = Some t \<Longrightarrow> blockon_ok (blockon t) \<Longrightarrow>
   \<exists>t'. tasks h' mt = Some t' \<and> blockon_ok (blockon t')"
proof (induction es arbitrary: h t)
  case Nil
  then show ?case by simp
next
  case (Cons e es)
  from mon_run_Cons [OF Cons.prems(1)] obtain h1 where
    h1: "mon_step e h = Inr h1" "mon_run es h1 = Inr h'" by blast
  from mon_step_blockon [OF h1(1) Cons.prems(2) Cons.prems(3)] obtain t1 where
    "tasks h1 mt = Some t1" "blockon_ok (blockon t1)" by blast
  with Cons.IH [OF h1(2)] show ?case by blast
qed

subsection \<open>The concrete store\<close>

lemmas mon_inputs = NULL_def ST_DIRTY_END_def LPEL_MON_TASK_STREAMS_def LPEL_MON_TASK_TIMES_def
  FLAG_STREAMS_def FLAG_TIMES_def ST_MOVED_def ST_WAKEUP_def ST_BLOCKON_def
  ST_OPENED_def ST_INUSE_def ST_CLOSED_def ST_REPLACED_def

text \<open>\<open>heap_example\<close> is what \<^verbatim>\<open>LpelMonTaskCreate\<close> and \<^verbatim>\<open>LpelMonTaskAssign\<close> build.\<close>

lemma heap_example_created:
  "LpelMonTaskCreate T tnow 0x200 5 (Some ''t1'') LPEL_MON_TASK_STREAMS heap_empty
     = Inr (0x200, heap_empty\<lparr>tasks := [0x200 \<mapsto> task_example\<lparr>ctx := NULL\<rparr>]\<rparr>) \<and>
   LpelMonTaskAssign 0x200 0x100 (heap_empty\<lparr>tasks := [0x200 \<mapsto> task_example\<lparr>ctx := NULL\<rparr>]\<rparr>)
     = Inr heap_example"
  by (simp add: LpelMonTaskCreate_def LpelMonTaskAssign_def MON_TASKNAME_MAXLEN_def Let_def
      mon_inputs ctx_example_def task_example_def heap_empty_def heap_example_def)

lemma dirty_inv_heap_example: "dirty_inv heap_example"
proof (rule dirty_invI)
  fix mt t assume "tasks heap_example mt = Some t"
  then have "dirty_list t = ST_DIRTY_END"
    by (auto simp: heap_example_def task_example_def split: if_splits)
  then have "dirty_chain (streams heap_example) (dirty_list t) []" by simp
  then show "\<exists>ps. dirty_chain (streams heap_example) (dirty_list t) ps \<and>
      (\<forall>a\<in>set ps. \<forall>s. streams heap_example a = Some s \<longrightarrow> montask s = mt)"
    by (intro exI [of _ "[]"]) simp
qed (simp_all add: heap_example_def)

lemma states_ok_heap_example: "states_ok heap_example"
  by (simp add: states_ok_def heap_example_def)

lemma modes_ok_heap_example: "modes_ok heap_example"
  by (simp add: modes_ok_def heap_example_def)

lemma run_events_example: "mon_run events_example heap_example = Inr heap_dirty"
  by (simp add: stream_ops MarkDirty_def Let_def mon_inputs ctx_example_def task_example_def
      heap_example_def events_example_def stream_example_def heap_dirty_def)

lemma dirty_inv_heap_dirty: "dirty_inv heap_dirty"
  using dirty_inv_heap_example run_events_example by (rule mon_run_inv)

lemma states_ok_heap_dirty: "states_ok heap_dirty"
  using states_ok_heap_example run_events_example by (rule mon_run_states_ok)

section \<open>The claims about the monitoring sidecar\<close>

lemma MarkDirty_linked_noop:
  "streams h ms = Some s \<Longrightarrow> dirty s \<noteq> NULL \<Longrightarrow> MarkDirty ms h = Inr h"
  by (simp add: MarkDirty_def Let_def)

lemma dirty_inv_list:
  assumes inv: "dirty_inv h" and t: "tasks h mt = Some t"
  shows "\<exists>ps. dirty_chain (streams h) (dirty_list t) ps \<and> distinct ps \<and>
    (\<forall>a\<in>set ps. \<exists>s. streams h a = Some s \<and> montask s = mt) \<and>
    (\<forall>a s. streams h a = Some s \<longrightarrow> montask s = mt \<longrightarrow> (a \<in> set ps) = (dirty s \<noteq> NULL))"
proof -
  from dirty_inv_task [OF inv t] obtain ps where
    ps: "dirty_chain (streams h) (dirty_list t) ps"
      "\<forall>a\<in>set ps. \<forall>s. streams h a = Some s \<longrightarrow> montask s = mt" by blast
  have d: "distinct ps" using ps(1) by (rule dirty_chain_distinct)
  have al: "\<forall>a\<in>set ps. \<exists>s. streams h a = Some s \<and> montask s = mt"
    using ps dirty_chain_allocated [OF ps(1)] by fastforce
  have "(a \<in> set ps) = (dirty s \<noteq> NULL)" if s: "streams h a = Some s" and m: "montask s = mt"
    for a s
  proof
    assume "a \<in> set ps"
    from dirty_chain_linked [OF dirty_inv_NULL [OF inv] ps(1) this] s show "dirty s \<noteq> NULL"
      by simp
  next
    assume "dirty s \<noteq> NULL"
    from dirty_inv_stream [OF inv s this] m t obtain qs where
      "dirty_chain (streams h) (dirty_list t) qs" "a \<in> set qs" by auto
    with ps(1) show "a \<in> set ps" by (auto dest: dirty_chain_unique)
  qed
  with ps(1) d al show ?thesis by blast
qed

text \<open>
  C7. Take a store that keeps the dirty-list discipline (as every store does after
  \<^verbatim>\<open>LpelMonTaskCreate\<close> and after a stop) and any sequence of stream events (open, close,
  replace, moved, block-on, wakeup) that runs through. Then the discipline still holds,
  and for every task the dirty list is a chain of descriptors that ends at
  \<^verbatim>\<open>ST_DIRTY_END\<close> and holds no descriptor twice; a descriptor of the task is on it
  exactly when its dirty link is not NULL; \<^verbatim>\<open>MarkDirty\<close> on a descriptor whose dirty link is
  not NULL changes nothing; and \<^verbatim>\<open>ST_DIRTY_END\<close>, the link of the last entry, is not NULL.
\<close>

theorem dirty_list_links_at_most_once:
  assumes "dirty_inv h" and "mon_run es h = Inr h'" and "tasks h' mt = Some t"
  shows "dirty_inv h' \<and>
    (\<exists>ps. dirty_chain (streams h') (dirty_list t) ps \<and> distinct ps \<and>
      (\<forall>a s. streams h' a = Some s \<longrightarrow> montask s = mt \<longrightarrow>
         (a \<in> set ps) = (dirty s \<noteq> NULL))) \<and>
    (\<forall>ms s. streams h' ms = Some s \<longrightarrow> dirty s \<noteq> NULL \<longrightarrow> MarkDirty ms h' = Inr h') \<and>
    ST_DIRTY_END \<noteq> NULL"
proof -
  have inv: "dirty_inv h'" using assms(1,2) by (rule mon_run_inv)
  from dirty_inv_list [OF inv assms(3)] obtain ps where
    "dirty_chain (streams h') (dirty_list t) ps" "distinct ps"
    "\<forall>a s. streams h' a = Some s \<longrightarrow> montask s = mt \<longrightarrow> (a \<in> set ps) = (dirty s \<noteq> NULL)"
    by blast
  then have "\<exists>ps. dirty_chain (streams h') (dirty_list t) ps \<and> distinct ps \<and>
      (\<forall>a s. streams h' a = Some s \<longrightarrow> montask s = mt \<longrightarrow>
         (a \<in> set ps) = (dirty s \<noteq> NULL))" by blast
  moreover have "\<forall>ms s. streams h' ms = Some s \<longrightarrow> dirty s \<noteq> NULL \<longrightarrow>
      MarkDirty ms h' = Inr h'"
    by (simp add: MarkDirty_linked_noop)
  ultimately show ?thesis using inv ST_DIRTY_END_not_NULL by blast
qed

text \<open>C7, witness: the task of \<open>heap_example\<close> opens a stream, moves an item and blocks
  on it; the descriptor at \<open>0x300\<close> is on the dirty list once.\<close>

theorem dirty_list_links_at_most_once_witness:
  "dirty_inv heap_example \<and> mon_run events_example heap_example = Inr heap_dirty \<and>
   tasks heap_dirty 0x200 = Some (task_example\<lparr>dirty_list := 0x300, blockon := CHR ''i''\<rparr>) \<and>
   dirty_inv heap_dirty \<and>
   (\<exists>ps. dirty_chain (streams heap_dirty) 0x300 ps \<and> distinct ps \<and> 0x300 \<in> set ps) \<and>
   MarkDirty 0x300 heap_dirty = Inr heap_dirty"
proof -
  have t: "tasks heap_dirty 0x200 = Some (task_example\<lparr>dirty_list := 0x300, blockon := CHR ''i''\<rparr>)"
    by (simp add: heap_dirty_def)
  have s: "streams heap_dirty 0x300 = Some stream_example" "montask stream_example = 0x200"
    "dirty stream_example \<noteq> NULL"
    by (simp_all add: heap_dirty_def stream_example_def ST_DIRTY_END_def NULL_def)
  from dirty_list_links_at_most_once [OF dirty_inv_heap_example run_events_example t] s
  have "(\<exists>ps. dirty_chain (streams heap_dirty) 0x300 ps \<and> distinct ps \<and> 0x300 \<in> set ps)"
    "MarkDirty 0x300 heap_dirty = Inr heap_dirty" "dirty_inv heap_dirty"
    by auto
  with dirty_inv_heap_example run_events_example t show ?thesis by simp
qed

text \<open>What \<^verbatim>\<open>PrintDirtyList\<close> prints for an entry is the tuple of the spec.\<close>

lemma event_bits:
  fixes w :: uint
  shows "(w AND ST_BLOCKON \<noteq> 0) = bit w 2" "(w AND ST_WAKEUP \<noteq> 0) = bit w 1"
    "(w AND ST_MOVED \<noteq> 0) = bit w 0"
proof -
  have "ST_BLOCKON = push_bit 2 1" "ST_WAKEUP = push_bit 1 1" "ST_MOVED = push_bit 0 1"
    by (simp_all add: ST_BLOCKON_def ST_WAKEUP_def ST_MOVED_def)
  then show "(w AND ST_BLOCKON \<noteq> 0) = bit w 2" "(w AND ST_WAKEUP \<noteq> 0) = bit w 1"
    "(w AND ST_MOVED \<noteq> 0) = bit w 0"
    by (simp_all only: bit_iff_and_push_bit_not_eq_0)
qed

lemma print_entry_tuple: "print_entry s = stream_tuple s"
  by (simp add: print_entry_def stream_tuple_def flag_letter_def event_bits)

lemma entry_text_tuple: "entry_text m = tuple_text m"
  by (rule ext) (simp add: entry_text_def tuple_text_def print_entry_tuple split: option.splits)

text \<open>
  C8. Take a store that keeps the dirty-list discipline and whose descriptors are in
  one of the four states, and a task with stream monitoring enabled that is assigned to
  a context. Then \<^verbatim>\<open>LpelMonTaskStop\<close> returns, and with \<open>ps\<close> the entries of the task's dirty
  list before the call, none of them twice: the line it appends to the context's file
  holds, between the brackets, the tuple \<^verbatim>\<open>sid,mode,state,counter,?!*;\<close> of each entry of
  \<open>ps\<close> once, in list order, and nothing else; an entry that was Closed is freed; any
  other entry survives with its dirty link NULL and its event flags zero, in state InUse
  if it was Opened or Replaced and with all its other fields as they were; descriptors
  that were not on the list are untouched; and the task's dirty-list head is
  \<^verbatim>\<open>ST_DIRTY_END\<close>.
\<close>

theorem LpelMonTaskStop_drains_dirty_list:
  assumes "dirty_inv h" and "states_ok h" and "tasks h mt = Some t" and "FLAG_STREAMS t"
    and "ctxs h (ctx t) = Some c"
  shows "\<exists>ps h'. dirty_chain (streams h) (dirty_list t) ps \<and> distinct ps \<and>
    LpelMonTaskStop T now mt st h = Some (Inr h') \<and>
    ctxs h' (ctx t) = Some (c\<lparr>outfile := outfile c @ stop_head T now (monitoring_begin h) t st @
       ''['' @ concat (map (tuple_text (streams h)) ps) @ ''] '' @ [CHR 0x0A]\<rparr>) \<and>
    (\<forall>a\<in>set ps. \<exists>s. streams h a = Some s \<and> tuple_text (streams h) a = stream_tuple s \<and>
       (if state s = ST_CLOSED then streams h' a = None
        else streams h' a =
          Some (s\<lparr>state := (if state s = ST_OPENED \<or> state s = ST_REPLACED
                              then ST_INUSE else state s),
                  dirty := NULL, event_flags := 0\<rparr>))) \<and>
    (\<forall>a. a \<notin> set ps \<longrightarrow> streams h' a = streams h a) \<and>
    (\<exists>t'. tasks h' mt = Some t' \<and> dirty_list t' = ST_DIRTY_END)"
proof -
  from dirty_inv_list [OF assms(1,3)] obtain ps where
    ps: "dirty_chain (streams h) (dirty_list t) ps" "distinct ps"
      "\<forall>a\<in>set ps. \<exists>s. streams h a = Some s \<and> montask s = mt" by blast
  have ok: "\<forall>a\<in>set ps. \<forall>s. streams h a = Some s \<longrightarrow> montask s = mt \<and> state_ok s"
    using ps(3) assms(2) by (fastforce simp: states_ok_def)
  let ?h' = "h\<lparr>ctxs := (ctxs h)(ctx t \<mapsto>
                      c\<lparr>outfile := outfile c @ stop_head T now (monitoring_begin h) t st @
                         ''['' @ concat (map (tuple_text (streams h)) ps) @ ''] '' @
                         [CHR 0x0A]\<rparr>),
                    streams := drain_all (streams h) ps,
                    tasks := (tasks h)
                      (mt \<mapsto> (stop_task T now t)\<lparr>dirty_list := ST_DIRTY_END\<rparr>)\<rparr>"
  have stop: "LpelMonTaskStop T now mt st h = Some (Inr ?h')"
    using LpelMonTaskStop_streams [OF assms(3,5,4) ps(1) ok, of T now st]
    by (simp only: entry_text_tuple)
  have ent: "\<forall>a\<in>set ps. \<exists>s. streams h a = Some s \<and>
       tuple_text (streams h) a = stream_tuple s \<and>
       (if state s = ST_CLOSED then streams ?h' a = None
        else streams ?h' a =
          Some (s\<lparr>state := (if state s = ST_OPENED \<or> state s = ST_REPLACED
                              then ST_INUSE else state s),
                  dirty := NULL, event_flags := 0\<rparr>))"
    using ps(3) by (fastforce simp: drain_all_def drained_def tuple_text_def)
  have oth: "\<forall>a. a \<notin> set ps \<longrightarrow> streams ?h' a = streams h a"
    by (simp add: drain_all_def)
  have "ctxs ?h' (ctx t) = Some (c\<lparr>outfile := outfile c @ stop_head T now (monitoring_begin h) t st @
       ''['' @ concat (map (tuple_text (streams h)) ps) @ ''] '' @ [CHR 0x0A]\<rparr>)"
    by simp
  moreover have "\<exists>t'. tasks ?h' mt = Some t' \<and> dirty_list t' = ST_DIRTY_END" by simp
  ultimately show ?thesis using ps(1,2) stop ent oth by blast
qed

lemma dec_digit: "n < 10 \<Longrightarrow> dec n = [digit_char n]"
  by (simp add: dec.simps)

lemma digit_chars:
  "digit_char 0 = CHR ''0''" "digit_char (Suc 0) = CHR ''1''" "digit_char 5 = CHR ''5''"
  "digit_char 7 = CHR ''7''"
  by code_simp+

text \<open>
  C8, witness: stopping the task of \<open>heap_dirty\<close> in state Blocked. Its dirty list holds
  the descriptor at \<open>0x300\<close>: stream 7, opened for reading, one item moved, blocked on.
  The line written is \<^verbatim>\<open>5 t1 disp 0 st Bi [7,r,O,1,?-*;] \<close> and a newline; the descriptor
  is InUse afterwards, unlinked and without event flags.
\<close>

theorem LpelMonTaskStop_drains_dirty_list_witness:
  "dirty_inv heap_dirty \<and> states_ok heap_dirty \<and>
   tasks heap_dirty 0x200 = Some (task_example\<lparr>dirty_list := 0x300, blockon := CHR ''i''\<rparr>) \<and>
   FLAG_STREAMS (task_example\<lparr>dirty_list := 0x300, blockon := CHR ''i''\<rparr>) \<and>
   ctxs heap_dirty (ctx (task_example\<lparr>dirty_list := 0x300, blockon := CHR ''i''\<rparr>))
     = Some ctx_example \<and>
   (\<exists>h'. LpelMonTaskStop timing_example timing_zero 0x200 TASK_BLOCKED heap_dirty
            = Some (Inr h') \<and>
      map_option outfile (ctxs h' 0x100)
        = Some (''5 t1 disp 0 st Bi [7,r,O,1,?-*;] '' @ [CHR 0x0A]) \<and>
      streams h' 0x300
        = Some (stream_example\<lparr>state := ST_INUSE, dirty := NULL, event_flags := 0\<rparr>) \<and>
      (\<exists>t'. tasks h' 0x200 = Some t' \<and> dirty_list t' = ST_DIRTY_END))"
proof -
  let ?t = "task_example\<lparr>dirty_list := 0x300, blockon := CHR ''i''\<rparr>"
  have t: "tasks heap_dirty 0x200 = Some ?t" by (simp add: heap_dirty_def)
  have f: "FLAG_STREAMS ?t" by (simp add: mon_inputs task_example_def)
  have cx: "ctx ?t = 0x100" by (simp add: task_example_def)
  have c: "ctxs heap_dirty (ctx ?t) = Some ctx_example"
    by (simp add: heap_dirty_def task_example_def)
  have ch0: "dirty_chain (streams heap_dirty) (dirty_list ?t) [0x300]"
    by (simp add: mon_inputs task_example_def stream_example_def heap_dirty_def)
  from LpelMonTaskStop_drains_dirty_list [OF dirty_inv_heap_dirty states_ok_heap_dirty t f c,
      of timing_example timing_zero TASK_BLOCKED]
  obtain ps h' where ch: "dirty_chain (streams heap_dirty) (dirty_list ?t) ps"
    and stop: "LpelMonTaskStop timing_example timing_zero 0x200 TASK_BLOCKED heap_dirty
                 = Some (Inr h')"
    and out: "ctxs h' (ctx ?t) = Some (ctx_example\<lparr>outfile := outfile ctx_example @
       stop_head timing_example timing_zero (monitoring_begin heap_dirty) ?t TASK_BLOCKED @
       ''['' @ concat (map (tuple_text (streams heap_dirty)) ps) @ ''] '' @ [CHR 0x0A]\<rparr>)"
    and ent: "\<forall>a\<in>set ps. \<exists>s. streams heap_dirty a = Some s \<and>
       tuple_text (streams heap_dirty) a = stream_tuple s \<and>
       (if state s = ST_CLOSED then streams h' a = None
        else streams h' a =
          Some (s\<lparr>state := (if state s = ST_OPENED \<or> state s = ST_REPLACED
                              then ST_INUSE else state s),
                  dirty := NULL, event_flags := 0\<rparr>))"
    and hd: "\<exists>t'. tasks h' 0x200 = Some t' \<and> dirty_list t' = ST_DIRTY_END"
    by blast
  have ps: "ps = [0x300]" using ch ch0 by (rule dirty_chain_unique)
  have head: "stop_head timing_example timing_zero (monitoring_begin heap_dirty) ?t TASK_BLOCKED
      = ''5 t1 disp 0 st Bi ''"
    by (simp add: stop_head_def dec_digit digit_chars mon_inputs task_example_def)
  have tup: "tuple_text (streams heap_dirty) 0x300 = ''7,r,O,1,?-*;''"
    by (simp add: tuple_text_def stream_tuple_def flag_letter_def dec_digit digit_chars
        mon_inputs heap_dirty_def stream_example_def)
  from out have line: "map_option outfile (ctxs h' 0x100)
      = Some (''5 t1 disp 0 st Bi [7,r,O,1,?-*;] '' @ [CHR 0x0A])"
    by (simp add: cx ps head tup ctx_example_def)
  from ent have "streams h' 0x300
      = Some (stream_example\<lparr>state := ST_INUSE, dirty := NULL, event_flags := 0\<rparr>)"
    unfolding ps by (fastforce simp: heap_dirty_def stream_example_def ST_OPENED_def ST_CLOSED_def)
  with stop line hd dirty_inv_heap_dirty states_ok_heap_dirty t f c show ?thesis by blast
qed

lemma mon_step_unmarked:
  assumes s: "streams h a = Some s" and nm: "\<not> marks e a" and st: "mon_step e h = Inr h'"
  shows "streams h' a =
     Some (if e = StreamWakeup a then s\<lparr>event_flags := event_flags s OR ST_WAKEUP\<rparr> else s)"
proof (cases e)
  case (StreamOpen a' mt sid' mode')
  show ?thesis
  proof (cases "h' = h")
    case True
    with s StreamOpen show ?thesis by simp
  next
    case False
    with st StreamOpen obtain x where
      "MarkDirty a' (h\<lparr>streams := (streams h)(a' \<mapsto> x)\<rparr>) = Inr h'"
      by (auto simp: LpelMonStreamOpen_def Let_def split: if_splits option.splits sum.splits)
    from MarkDirty_streams [OF this] nm s StreamOpen show ?thesis by auto
  qed
next
  case (StreamClose ms)
  with st obtain x where "MarkDirty ms (h\<lparr>streams := (streams h)(ms \<mapsto> x)\<rparr>) = Inr h'"
    by (auto simp: LpelMonStreamClose_def split: if_splits option.splits)
  from MarkDirty_streams [OF this] nm s StreamClose show ?thesis by auto
next
  case (StreamReplace ms new_sid)
  with st obtain x where "MarkDirty ms (h\<lparr>streams := (streams h)(ms \<mapsto> x)\<rparr>) = Inr h'"
    by (auto simp: LpelMonStreamReplace_def split: if_splits option.splits)
  from MarkDirty_streams [OF this] nm s StreamReplace show ?thesis by auto
next
  case (StreamMoved ms)
  with st obtain x where "MarkDirty ms (h\<lparr>streams := (streams h)(ms \<mapsto> x)\<rparr>) = Inr h'"
    by (auto simp: LpelMonStreamMoved_def split: if_splits option.splits)
  from MarkDirty_streams [OF this] nm s StreamMoved show ?thesis by auto
next
  case (StreamBlockon ms)
  with st obtain x h1 where
    "MarkDirty ms (h\<lparr>streams := (streams h)(ms \<mapsto> x)\<rparr>) = Inr h1" "streams h' = streams h1"
    by (auto simp: LpelMonStreamBlockon_def split: if_splits option.splits sum.splits)
  from MarkDirty_streams [OF this(1)] this(2) nm s StreamBlockon show ?thesis by auto
next
  case (StreamWakeup ms)
  with st s show ?thesis
    by (auto simp: LpelMonStreamWakeup_def split: if_splits option.splits)
qed

lemma mon_run_unmarked:
  "streams h a = Some s \<Longrightarrow> list_all (\<lambda>e. \<not> marks e a) es \<Longrightarrow> mon_run es h = Inr h' \<Longrightarrow>
   streams h' a =
     Some (if StreamWakeup a \<in> set es
           then s\<lparr>event_flags := event_flags s OR ST_WAKEUP\<rparr> else s)"
proof (induction es arbitrary: h s)
  case Nil
  then show ?case by simp
next
  case (Cons e es)
  from mon_run_Cons [OF Cons.prems(3)] obtain h1 where
    h1: "mon_step e h = Inr h1" "mon_run es h1 = Inr h'" by blast
  from Cons.prems(2) have nm: "\<not> marks e a" "list_all (\<lambda>e. \<not> marks e a) es" by simp_all
  from mon_step_unmarked [OF Cons.prems(1) nm(1) h1(1)]
  have s1: "streams h1 a =
     Some (if e = StreamWakeup a then s\<lparr>event_flags := event_flags s OR ST_WAKEUP\<rparr> else s)" .
  from Cons.IH [OF s1 nm(2) h1(2)] show ?case
    by (auto simp: or.assoc)
qed


lemma task_static_eqD:
  assumes "task_static t1 = task_static t"
  shows "ctx t1 = ctx t" and "name t1 = name t" and "tid t1 = tid t" and "disp t1 = disp t"
    and "mon_flags t1 = mon_flags t" and "FLAG_STREAMS t1 = FLAG_STREAMS t"
    and "FLAG_TIMES t1 = FLAG_TIMES t" and "times_start t1 = times_start t"
    and "times_creat t1 = times_creat t" and "times_total t1 = times_total t"
proof -
  have "ctx (task_static t1) = ctx (task_static t)" "name (task_static t1) = name (task_static t)"
    "tid (task_static t1) = tid (task_static t)" "disp (task_static t1) = disp (task_static t)"
    "mon_flags (task_static t1) = mon_flags (task_static t)"
    "times_start (task_static t1) = times_start (task_static t)"
    "times_creat (task_static t1) = times_creat (task_static t)"
    "times_total (task_static t1) = times_total (task_static t)"
    using assms by simp_all
  then show "ctx t1 = ctx t" and "name t1 = name t" and "tid t1 = tid t" and "disp t1 = disp t"
    and m: "mon_flags t1 = mon_flags t" and "times_start t1 = times_start t"
    and "times_creat t1 = times_creat t" and "times_total t1 = times_total t"
    by (simp_all add: task_static_def)
  from m show "FLAG_STREAMS t1 = FLAG_STREAMS t" and "FLAG_TIMES t1 = FLAG_TIMES t"
    by (simp_all add: FLAG_STREAMS_def FLAG_TIMES_def)
qed

lemma mon_run_task:
  assumes "mon_run es h = Inr h'" and "tasks h mt = Some t"
  shows "\<exists>t'. tasks h' mt = Some t' \<and> task_static t' = task_static t"
  using mon_run_tasks [OF assms(1), of mt] assms(2) by auto

text \<open>
  C10. \<^verbatim>\<open>LpelMonStreamWakeup\<close> returns the store with the descriptor's event flags or-ed
  with \<^verbatim>\<open>ST_WAKEUP\<close> and nothing else changed: no dirty link and no dirty-list head is
  written. Consequently: in a store that keeps the dirty-list discipline, take a
  descriptor \<open>a\<close> that is not linked (as after the stop that ends a dispatch) and a sequence
  of events none of which marks \<open>a\<close> dirty (on \<open>a\<close>, wakeups only). Then the stop of its task
  prints exactly the entries \<open>ps\<close> of the task's dirty list, and \<open>a\<close> is not among them: its
  tuple, and with it its \<^verbatim>\<open>!\<close>, is not in the line. The descriptor is as it was, but for
  the wakeup flag, which stays set when a wakeup was among the events.
\<close>

theorem wakeup_alone_is_not_printed:
  assumes inv: "dirty_inv h" and ok: "states_ok h"
    and s: "streams h a = Some s" and d: "dirty s = NULL"
    and t: "tasks h (montask s) = Some t" and f: "FLAG_STREAMS t"
    and c: "ctxs h (ctx t) = Some c"
    and nm: "list_all (\<lambda>e. \<not> marks e a) es" and run: "mon_run es h = Inr h1"
  shows "LpelMonStreamWakeup a h =
      Inr (h\<lparr>streams := (streams h)(a \<mapsto> s\<lparr>event_flags := event_flags s OR ST_WAKEUP\<rparr>)\<rparr>) \<and>
    (\<exists>t1 ps h2. tasks h1 (montask s) = Some t1 \<and>
       dirty_chain (streams h1) (dirty_list t1) ps \<and> a \<notin> set ps \<and>
       LpelMonTaskStop T now (montask s) st h1 = Some (Inr h2) \<and>
       ctxs h2 (ctx t) =
         Some (c\<lparr>outfile := outfile c @ stop_head T now (monitoring_begin h1) t1 st @
            ''['' @ concat (map (entry_text (streams h1)) ps) @ ''] '' @ [CHR 0x0A]\<rparr>) \<and>
       streams h2 a =
         Some (if StreamWakeup a \<in> set es
               then s\<lparr>event_flags := event_flags s OR ST_WAKEUP\<rparr> else s))"
proof -
  have "a \<noteq> NULL" using inv s by (auto simp: dirty_inv_NULL)
  with s have wake: "LpelMonStreamWakeup a h =
      Inr (h\<lparr>streams := (streams h)(a \<mapsto> s\<lparr>event_flags := event_flags s OR ST_WAKEUP\<rparr>)\<rparr>)"
    by (simp add: LpelMonStreamWakeup_def)
  have inv1: "dirty_inv h1" using inv run by (rule mon_run_inv)
  have ok1: "states_ok h1" using ok run by (rule mon_run_states_ok)
  let ?s1 = "if StreamWakeup a \<in> set es
             then s\<lparr>event_flags := event_flags s OR ST_WAKEUP\<rparr> else s"
  have s1: "streams h1 a = Some ?s1" by (rule mon_run_unmarked [OF s nm run])
  have d1: "dirty ?s1 = NULL" using d by simp
  from mon_run_task [OF run t] obtain t1 where
    t1: "tasks h1 (montask s) = Some t1" and eq: "task_static t1 = task_static t" by blast
  have c1: "ctxs h1 (ctx t1) = Some c"
    using c mon_run_ctxs [OF run] task_static_eqD(1) [OF eq] by simp
  have f1: "FLAG_STREAMS t1" using f task_static_eqD(6) [OF eq] by simp
  from dirty_inv_list [OF inv1 t1] obtain ps where
    ps: "dirty_chain (streams h1) (dirty_list t1) ps"
      "\<forall>b\<in>set ps. \<exists>x. streams h1 b = Some x \<and> montask x = montask s" by blast
  have okps: "\<forall>b\<in>set ps. \<forall>x. streams h1 b = Some x \<longrightarrow> montask x = montask s \<and> state_ok x"
    using ps(2) ok1 by (fastforce simp: states_ok_def)
  have notin: "a \<notin> set ps" by (rule dirty_inv_unlinked_notin [OF inv1 s1 d1 ps(1)])
  let ?h2 = "h1\<lparr>ctxs := (ctxs h1)(ctx t1 \<mapsto>
                      c\<lparr>outfile := outfile c @ stop_head T now (monitoring_begin h1) t1 st @
                         ''['' @ concat (map (entry_text (streams h1)) ps) @ ''] '' @
                         [CHR 0x0A]\<rparr>),
                    streams := drain_all (streams h1) ps,
                    tasks := (tasks h1)
                      (montask s \<mapsto> (stop_task T now t1)\<lparr>dirty_list := ST_DIRTY_END\<rparr>)\<rparr>"
  have stop: "LpelMonTaskStop T now (montask s) st h1 = Some (Inr ?h2)"
    by (rule LpelMonTaskStop_streams [OF t1 c1 f1 ps(1) okps])
  have out: "ctxs ?h2 (ctx t) =
         Some (c\<lparr>outfile := outfile c @ stop_head T now (monitoring_begin h1) t1 st @
            ''['' @ concat (map (entry_text (streams h1)) ps) @ ''] '' @ [CHR 0x0A]\<rparr>)"
    using task_static_eqD(1) [OF eq] by simp
  have a2: "streams ?h2 a = Some ?s1" using notin s1 by (simp add: drain_all_def)
  from t1 ps(1) notin stop out a2 have
    "\<exists>t1 ps h2. tasks h1 (montask s) = Some t1 \<and>
       dirty_chain (streams h1) (dirty_list t1) ps \<and> a \<notin> set ps \<and>
       LpelMonTaskStop T now (montask s) st h1 = Some (Inr h2) \<and>
       ctxs h2 (ctx t) =
         Some (c\<lparr>outfile := outfile c @ stop_head T now (monitoring_begin h1) t1 st @
            ''['' @ concat (map (entry_text (streams h1)) ps) @ ''] '' @ [CHR 0x0A]\<rparr>) \<and>
       streams h2 a = Some ?s1"
    by blast
  with wake show ?thesis by blast
qed


lemma dirty_inv_heap_clean: "dirty_inv heap_clean"
proof (rule dirty_invI)
  fix mt t assume "tasks heap_clean mt = Some t"
  then have "dirty_list t = ST_DIRTY_END"
    by (auto simp: heap_clean_def task_example_def split: if_splits)
  then have "dirty_chain (streams heap_clean) (dirty_list t) []" by simp
  then show "\<exists>ps. dirty_chain (streams heap_clean) (dirty_list t) ps \<and>
      (\<forall>a\<in>set ps. \<forall>s. streams heap_clean a = Some s \<longrightarrow> montask s = mt)"
    by (intro exI [of _ "[]"]) simp
next
  fix a s assume "streams heap_clean a = Some s" and "dirty s \<noteq> NULL"
  then have False by (auto simp: heap_clean_def split: if_splits)
  then show "\<exists>t ps. tasks heap_clean (montask s) = Some t \<and>
      dirty_chain (streams heap_clean) (dirty_list t) ps \<and> a \<in> set ps" ..
qed (simp_all add: heap_clean_def NULL_def ST_DIRTY_END_def)

lemma states_ok_heap_clean: "states_ok heap_clean"
  by (simp add: states_ok_def heap_clean_def state_ok_def)

lemma run_wakeup_example: "mon_run [StreamWakeup 0x300] heap_clean = Inr heap_woken"
  by (simp add: LpelMonStreamWakeup_def heap_woken_def heap_clean_def stream_example_def
      NULL_def)

text \<open>C10, witness: the descriptor at \<open>0x300\<close> of \<open>heap_clean\<close> is not linked; a peer wakes
  it up; the task's next stop prints no entry, and the wakeup flag is still set.\<close>

theorem wakeup_alone_is_not_printed_witness:
  "dirty_inv heap_clean \<and> states_ok heap_clean \<and>
   streams heap_clean 0x300
     = Some (stream_example\<lparr>state := ST_INUSE, dirty := NULL, event_flags := 0\<rparr>) \<and>
   dirty (stream_example\<lparr>state := ST_INUSE, dirty := NULL, event_flags := 0\<rparr>) = NULL \<and>
   tasks heap_clean 0x200 = Some (task_example\<lparr>blockon := CHR ''i''\<rparr>) \<and>
   FLAG_STREAMS (task_example\<lparr>blockon := CHR ''i''\<rparr>) \<and>
   ctxs heap_clean 0x100 = Some ctx_example \<and>
   list_all (\<lambda>e. \<not> marks e 0x300) [StreamWakeup 0x300] \<and>
   mon_run [StreamWakeup 0x300] heap_clean = Inr heap_woken \<and>
   (\<exists>h2. LpelMonTaskStop timing_example timing_zero 0x200 TASK_READY heap_woken
            = Some (Inr h2) \<and>
      map_option outfile (ctxs h2 0x100) = Some (''5 t1 disp 0 st R [] '' @ [CHR 0x0A]) \<and>
      map_option event_flags (streams h2 0x300) = Some ST_WAKEUP)"
proof -
  let ?s = "stream_example\<lparr>state := ST_INUSE, dirty := NULL, event_flags := 0\<rparr>"
  let ?t = "task_example\<lparr>blockon := CHR ''i''\<rparr>"
  have s: "streams heap_clean 0x300 = Some ?s" by (simp add: heap_clean_def)
  have d: "dirty ?s = NULL" by simp
  have m: "montask ?s = 0x200" by (simp add: stream_example_def)
  have t: "tasks heap_clean (montask ?s) = Some ?t" by (simp add: heap_clean_def m)
  have f: "FLAG_STREAMS ?t" by (simp add: mon_inputs task_example_def)
  have cx: "ctx ?t = 0x100" by (simp add: task_example_def)
  have c: "ctxs heap_clean (ctx ?t) = Some ctx_example" by (simp add: heap_clean_def cx)
  have nm: "list_all (\<lambda>e. \<not> marks e 0x300) [StreamWakeup 0x300]" by simp
  from wakeup_alone_is_not_printed [OF dirty_inv_heap_clean states_ok_heap_clean s d t f c nm
      run_wakeup_example, of timing_example timing_zero TASK_READY]
  obtain t1 ps h2 where t1: "tasks heap_woken (montask ?s) = Some t1"
    and ch: "dirty_chain (streams heap_woken) (dirty_list t1) ps"
    and stop: "LpelMonTaskStop timing_example timing_zero (montask ?s) TASK_READY heap_woken
                 = Some (Inr h2)"
    and out: "ctxs h2 (ctx ?t) =
         Some (ctx_example\<lparr>outfile := outfile ctx_example @
            stop_head timing_example timing_zero (monitoring_begin heap_woken) t1 TASK_READY @
            ''['' @ concat (map (entry_text (streams heap_woken)) ps) @ ''] '' @ [CHR 0x0A]\<rparr>)"
    and a2: "streams h2 0x300 = Some (?s\<lparr>event_flags := event_flags ?s OR ST_WAKEUP\<rparr>)"
    by auto
  from t1 have t1': "t1 = ?t" by (simp add: heap_woken_def heap_clean_def m)
  with ch have ps: "ps = []" by (cases ps) (simp_all add: task_example_def)
  have hd: "stop_head timing_example timing_zero (monitoring_begin heap_woken) ?t TASK_READY
      = ''5 t1 disp 0 st R ''"
    by (simp add: stop_head_def dec_digit digit_chars mon_inputs timing_example_def
        task_example_def)
  from out have "map_option outfile (ctxs h2 0x100) = Some (''5 t1 disp 0 st R [] '' @ [CHR 0x0A])"
    unfolding t1' ps hd cx by (simp add: ctx_example_def)
  moreover from a2 have "map_option event_flags (streams h2 0x300) = Some ST_WAKEUP" by simp
  ultimately show ?thesis
    using dirty_inv_heap_clean states_ok_heap_clean s d t f c nm run_wakeup_example stop
    by (simp add: m cx)
qed

subsection \<open>No newline inside a trace line\<close>

lemma digit_char_not_newline: "d < 10 \<Longrightarrow> digit_char d \<noteq> CHR 0x0A"
proof
  assume d: "d < 10" and e: "digit_char d = CHR 0x0A"
  from e have "of_char (char_of (48 + d)) = (of_char (CHR 0x0A) :: nat)"
    by (simp add: digit_char_def)
  with d show False by simp
qed

lemma newline_not_digit_char: "d < 10 \<Longrightarrow> CHR 0x0A \<noteq> digit_char d"
  using digit_char_not_newline [of d] by auto

lemma dec_no_newline: "CHR 0x0A \<notin> set (dec n)"
proof (induction n rule: dec.induct)
  case (1 n)
  show ?case
  proof (cases "n < 10")
    case True
    then show ?thesis by (simp add: dec.simps [of n] newline_not_digit_char)
  next
    case False
    with "1.IH" show ?thesis
      by (simp add: dec.simps [of n] newline_not_digit_char)
  qed
qed

lemma dec06_no_newline: "CHR 0x0A \<notin> set (dec06 n)"
  by (auto simp: dec06_def dec_no_newline)

lemma PrintTiming_no_newline: "CHR 0x0A \<notin> set (PrintTiming t)"
  by (simp add: PrintTiming_def dec_no_newline dec06_no_newline)

lemma taskstate_char_not_newline: "CHR 0x0A \<noteq> taskstate_char st"
  by (cases st) simp_all

lemma stop_head_no_newline:
  assumes "CHR 0x0A \<notin> set (name t)" and "blockon t \<noteq> CHR 0x0A"
  shows "CHR 0x0A \<notin> set (stop_head T now b t st)"
  using assms
  by (auto simp: stop_head_def dec_no_newline PrintTiming_no_newline taskstate_char_not_newline)

lemma print_entry_no_newline:
  assumes "mode s \<noteq> CHR 0x0A" and "state s \<noteq> CHR 0x0A"
  shows "CHR 0x0A \<notin> set (print_entry s)"
  using assms by (auto simp: print_entry_def dec_no_newline)

lemma state_ok_not_newline: "state_ok s \<Longrightarrow> state s \<noteq> CHR 0x0A"
  by (auto simp: state_ok_def ST_INUSE_def ST_OPENED_def ST_CLOSED_def ST_REPLACED_def)

lemma mode_ok_not_newline: "mode_ok m \<Longrightarrow> m \<noteq> CHR 0x0A"
  by (auto simp: mode_ok_def)

lemma blockon_ok_not_newline: "blockon_ok b \<Longrightarrow> b \<noteq> CHR 0x0A"
  by (auto simp: blockon_ok_def)

lemma entries_no_newline:
  assumes "states_ok h" and "modes_ok h"
  shows "CHR 0x0A \<notin> set (concat (map (entry_text (streams h)) ps))"
proof -
  have "CHR 0x0A \<notin> set (entry_text (streams h) a)" for a
  proof (cases "streams h a")
    case None
    then show ?thesis by (simp add: entry_text_def)
  next
    case (Some s)
    with assms have "state_ok s" "mode_ok (mode s)"
      by (auto simp: states_ok_def modes_ok_def)
    with Some show ?thesis
      by (simp add: entry_text_def print_entry_no_newline state_ok_not_newline
          mode_ok_not_newline)
  qed
  then show ?thesis by simp
qed

lemma stop_head_disp:
  "\<exists>pre post. stop_head T now b t st = pre @ ''disp '' @ dec (unat (disp t)) @ '' '' @ post"
proof -
  let ?pre = "(if FLAG_TIMES t then PrintTiming (TimingDiff T b now) else []) @
     dec (unat (tid t)) @ '' '' @ (if name t \<noteq> [] then name t @ '' '' else [])"
  let ?post = "(if st = TASK_BLOCKED then ''st B'' @ [blockon t] @ '' ''
      else ''st '' @ [taskstate_char st] @ '' '') @
     (if FLAG_TIMES t
      then ''et '' @ PrintTiming (TimingDiff T (times_start t) now) @
           (if st = TASK_ZOMBIE then ''creat '' @ PrintTiming (times_creat t) else [])
      else [])"
  have "stop_head T now b t st = ?pre @ ''disp '' @ dec (unat (disp t)) @ '' '' @ ?post"
    by (simp add: stop_head_def)
  then show ?thesis by blast
qed

subsection \<open>A dispatch\<close>

lemma start_task_fields [simp]:
  "ctx (start_task now t) = ctx t" "dirty_list (start_task now t) = dirty_list t"
  "name (start_task now t) = name t" "disp (start_task now t) = disp t + 1"
  "tid (start_task now t) = tid t" "mon_flags (start_task now t) = mon_flags t"
  "blockon (start_task now t) = CHR ''a''"
  by (simp_all add: start_task_def)

lemma LpelMonTaskStart_result:
  assumes "LpelMonTaskStart now mt h = Inr h1" and "tasks h mt = Some t"
    and "ctxs h (ctx t) = Some c"
  shows "h1 = h\<lparr>tasks := (tasks h)(mt \<mapsto> start_task now t),
                 ctxs := (ctxs h)(ctx t \<mapsto> c\<lparr>ctx_disp := ctx_disp c + 1\<rparr>)\<rparr>"
  using assms
  by (auto simp: LpelMonTaskStart_def start_task_def Let_def split: if_splits)

lemma dirty_inv_ctxs_upd [simp]: "dirty_inv (h\<lparr>ctxs := x\<rparr>) = dirty_inv h"
  by (simp add: dirty_inv_def)

lemma states_ok_ctxs_upd [simp]: "states_ok (h\<lparr>ctxs := x\<rparr>) = states_ok h"
  by (simp add: states_ok_def)

lemma modes_ok_ctxs_upd [simp]: "modes_ok (h\<lparr>ctxs := x\<rparr>) = modes_ok h"
  by (simp add: modes_ok_def)

lemma unat_disp_succ:
  assumes "(d :: ulong) \<noteq> - 1"
  shows "unat (d + 1) = unat d + 1"
proof -
  from assms have "1 + d \<noteq> 0" by (simp add: eq_neg_iff_add_eq_0 add.commute)
  then have "unat (1 + d) = Suc (unat d)" by (rule unatSuc)
  then show ?thesis by (simp add: add.commute)
qed


text \<open>
  C9, counterexample. The task of \<open>heap_newline\<close> is named \<^verbatim>\<open>"a\nb"\<close> and has been
  dispatched \<^verbatim>\<open>ULONG_MAX\<close> times. One start followed by one stop writes two
  newline-terminated lines to the trace file, and takes the dispatch counter from
  18446744073709551615 to 0, the value printed after \<^verbatim>\<open>disp\<close>.
\<close>

theorem dispatch_two_lines_and_wrap:
  "LpelMonTaskStart timing_zero 0x200 heap_newline = Inr heap_newline_started \<and>
   LpelMonTaskStop timing_example timing_zero 0x200 TASK_READY heap_newline_started
     = Some (Inr heap_newline_stopped) \<and>
   map_option outfile (ctxs heap_newline 0x100) = Some [] \<and>
   map_option outfile (ctxs heap_newline_stopped 0x100)
     = Some (''5 a'' @ [CHR 0x0A] @ ''b disp 0 st R [] '' @ [CHR 0x0A]) \<and>
   count_list (''5 a'' @ [CHR 0x0A] @ ''b disp 0 st R [] '' @ [CHR 0x0A]) (CHR 0x0A) = 2 \<and>
   map_option disp (tasks heap_newline 0x200) = Some 18446744073709551615 \<and>
   map_option disp (tasks heap_newline_stopped 0x200) = Some 0"
proof -
  have start: "LpelMonTaskStart timing_zero 0x200 heap_newline = Inr heap_newline_started"
    by (simp add: LpelMonTaskStart_def Let_def heap_newline_def heap_newline_started_def
        task_newline_def mon_inputs ctx_example_def task_example_def heap_example_def)
  let ?t = "task_newline\<lparr>disp := 0, blockon := CHR ''a''\<rparr>"
  have t: "tasks heap_newline_started 0x200 = Some ?t"
    by (simp add: heap_newline_started_def)
  have cx: "ctx ?t = 0x100" by (simp add: task_newline_def task_example_def)
  have c: "ctxs heap_newline_started (ctx ?t) = Some (ctx_example\<lparr>ctx_disp := 1\<rparr>)"
    by (simp add: heap_newline_started_def cx)
  have f: "FLAG_STREAMS ?t" by (simp add: task_newline_def mon_inputs task_example_def)
  have ch: "dirty_chain (streams heap_newline_started) (dirty_list ?t) []"
    by (simp add: task_newline_def task_example_def)
  have ok: "\<forall>a\<in>set []. \<forall>s. streams heap_newline_started a = Some s \<longrightarrow>
      montask s = 0x200 \<and> state_ok s" by simp
  have hd: "stop_head timing_example timing_zero (monitoring_begin heap_newline_started) ?t
      TASK_READY = ''5 a'' @ [CHR 0x0A] @ ''b disp 0 st R ''"
    by (simp add: stop_head_def dec_digit digit_chars task_newline_def mon_inputs
        timing_example_def task_example_def)
  have stop: "LpelMonTaskStop timing_example timing_zero 0x200 TASK_READY heap_newline_started
     = Some (Inr heap_newline_stopped)"
    unfolding LpelMonTaskStop_streams [OF t c f ch ok] hd cx
    by (simp add: heap_newline_started_def heap_newline_stopped_def heap_example_def
        stop_task_def drain_all_Nil task_newline_def task_example_def ctx_example_def
        FLAG_TIMES_def LPEL_MON_TASK_STREAMS_def LPEL_MON_TASK_TIMES_def)
  show ?thesis
    unfolding start stop
    by (simp add: heap_newline_def heap_newline_stopped_def heap_example_def
        ctx_example_def task_newline_def)
qed

text \<open>
  C9, as amended. Take a store that keeps the dirty-list discipline and whose descriptors
  have the documented states and modes, and a monitored task, assigned to a context,
  whose name holds no newline. Let the task be dispatched: \<^verbatim>\<open>LpelMonTaskStart\<close>, then any
  stream events that run through (their opens in mode \<^verbatim>\<open>'r'\<close> or \<^verbatim>\<open>'w'\<close>), then
  \<^verbatim>\<open>LpelMonTaskStop\<close>. The stop returns; the dispatch has appended to the context's file
  exactly one line, a text without newline followed by one newline; the task's dispatch
  counter is its old value plus one modulo \<open>2^64\<close>, and the line prints it after
  \<^verbatim>\<open>disp\<close>; unless the counter was \<^verbatim>\<open>ULONG_MAX\<close>, the printed value is the old one plus
  one, so that the values on successive lines increase strictly.
\<close>

theorem dispatch_writes_one_line:
  assumes inv: "dirty_inv h" and sok: "states_ok h" and mok: "modes_ok h"
    and t: "tasks h mt = Some t" and c: "ctxs h (ctx t) = Some c"
    and nl: "CHR 0x0A \<notin> set (name t)"
    and start: "LpelMonTaskStart now1 mt h = Inr h1"
    and evs: "list_all event_ok es" and run: "mon_run es h1 = Inr h2"
  shows "\<exists>h3 line t3. LpelMonTaskStop T now2 mt st h2 = Some (Inr h3) \<and>
    ctxs h3 (ctx t) =
      Some (c\<lparr>ctx_disp := ctx_disp c + 1, outfile := outfile c @ line @ [CHR 0x0A]\<rparr>) \<and>
    CHR 0x0A \<notin> set line \<and>
    (\<exists>pre post. line = pre @ ''disp '' @ dec (unat (disp t + 1)) @ '' '' @ post) \<and>
    tasks h3 mt = Some t3 \<and> disp t3 = disp t + 1 \<and>
    (disp t \<noteq> - 1 \<longrightarrow> unat (disp t3) = unat (disp t) + 1)"
proof -
  let ?c1 = "c\<lparr>ctx_disp := ctx_disp c + 1\<rparr>"
  have h1: "h1 = h\<lparr>tasks := (tasks h)(mt \<mapsto> start_task now1 t),
                   ctxs := (ctxs h)(ctx t \<mapsto> ?c1)\<rparr>"
    by (rule LpelMonTaskStart_result [OF start t c])
  have inv1: "dirty_inv h1"
    unfolding h1 using dirty_inv_upd_task [OF inv t, of "start_task now1 t"] by simp
  have sok1: "states_ok h1" and mok1: "modes_ok h1"
    unfolding h1 using sok mok by simp_all
  have t1: "tasks h1 mt = Some (start_task now1 t)" unfolding h1 by simp
  have inv2: "dirty_inv h2" using inv1 run by (rule mon_run_inv)
  have sok2: "states_ok h2" using sok1 run by (rule mon_run_states_ok)
  have mok2: "modes_ok h2" using mok1 evs run by (rule mon_run_modes_ok)
  from mon_run_task [OF run t1] obtain t2 where t2: "tasks h2 mt = Some t2"
    and eq: "task_static t2 = task_static (start_task now1 t)" by blast
  have f2: "ctx t2 = ctx t" "name t2 = name t" "disp t2 = disp t + 1"
    using task_static_eqD(1,2,4) [OF eq] by simp_all
  from mon_run_blockon [OF run t1] t2 have "blockon_ok (blockon t2)"
    by (simp add: blockon_ok_def)
  then have b2: "blockon t2 \<noteq> CHR 0x0A" by (rule blockon_ok_not_newline)
  have c2: "ctxs h2 (ctx t2) = Some ?c1"
    using mon_run_ctxs [OF run] f2(1) unfolding h1 by simp
  let ?head = "stop_head T now2 (monitoring_begin h2) t2 st"
  have head_nl: "CHR 0x0A \<notin> set ?head"
    using nl b2 f2(2) by (simp add: stop_head_no_newline)
  from stop_head_disp [of T now2 "monitoring_begin h2" t2 st] f2(3) obtain pre post where
    head: "?head = pre @ ''disp '' @ dec (unat (disp t + 1)) @ '' '' @ post" by auto
  have wrap: "disp t \<noteq> - 1 \<longrightarrow> unat (disp t + 1) = unat (disp t) + 1"
    by (simp add: unat_disp_succ)
  show ?thesis
  proof (cases "FLAG_STREAMS t2")
    case True
    from dirty_inv_list [OF inv2 t2] obtain ps where
      ps: "dirty_chain (streams h2) (dirty_list t2) ps"
        "\<forall>a\<in>set ps. \<exists>s. streams h2 a = Some s \<and> montask s = mt" by blast
    have okps: "\<forall>a\<in>set ps. \<forall>s. streams h2 a = Some s \<longrightarrow> montask s = mt \<and> state_ok s"
      using ps(2) sok2 by (fastforce simp: states_ok_def)
    define line where "line = ?head @ ''['' @ concat (map (entry_text (streams h2)) ps) @ ''] ''"
    define t3 where "t3 = (stop_task T now2 t2)\<lparr>dirty_list := ST_DIRTY_END\<rparr>"
    define h3 where "h3 = h2\<lparr>ctxs := (ctxs h2)(ctx t2 \<mapsto>
                      ?c1\<lparr>outfile := outfile ?c1 @ ?head @
                         ''['' @ concat (map (entry_text (streams h2)) ps) @ ''] '' @
                         [CHR 0x0A]\<rparr>),
                    streams := drain_all (streams h2) ps,
                    tasks := (tasks h2)(mt \<mapsto> t3)\<rparr>"
    have stop: "LpelMonTaskStop T now2 mt st h2 = Some (Inr h3)"
      unfolding h3_def t3_def by (rule LpelMonTaskStop_streams [OF t2 c2 True ps(1) okps])
    have out: "ctxs h3 (ctx t) =
        Some (c\<lparr>ctx_disp := ctx_disp c + 1, outfile := outfile c @ line @ [CHR 0x0A]\<rparr>)"
      using f2(1) by (simp add: h3_def line_def)
    have line_nl: "CHR 0x0A \<notin> set line"
      using head_nl entries_no_newline [OF sok2 mok2, of ps] by (simp add: line_def)
    have "line = pre @ ''disp '' @ dec (unat (disp t + 1)) @ '' '' @
        (post @ ''['' @ concat (map (entry_text (streams h2)) ps) @ ''] '')"
      by (simp add: head line_def)
    then have line: "\<exists>pre post. line = pre @ ''disp '' @ dec (unat (disp t + 1)) @ '' '' @ post"
      by blast
    have t3: "tasks h3 mt = Some t3" "disp t3 = disp t + 1"
      using f2(3) by (simp_all add: h3_def t3_def)
    from wrap t3(2) have "disp t \<noteq> - 1 \<longrightarrow> unat (disp t3) = unat (disp t) + 1" by simp
    with stop out line_nl line t3 show ?thesis by blast
  next
    case False
    define t3 where "t3 = stop_task T now2 t2"
    define h3 where "h3 = h2\<lparr>ctxs := (ctxs h2)(ctx t2 \<mapsto>
                      ?c1\<lparr>outfile := outfile ?c1 @ ?head @ [CHR 0x0A]\<rparr>),
                    tasks := (tasks h2)(mt \<mapsto> t3)\<rparr>"
    have stop: "LpelMonTaskStop T now2 mt st h2 = Some (Inr h3)"
      unfolding h3_def t3_def by (rule LpelMonTaskStop_no_streams [OF t2 c2 False])
    have out: "ctxs h3 (ctx t) =
        Some (c\<lparr>ctx_disp := ctx_disp c + 1, outfile := outfile c @ ?head @ [CHR 0x0A]\<rparr>)"
      using f2(1) by (simp add: h3_def)
    from head have line: "\<exists>pre post. ?head = pre @ ''disp '' @ dec (unat (disp t + 1)) @ '' '' @ post"
      by blast
    have t3: "tasks h3 mt = Some t3" "disp t3 = disp t + 1"
      using f2(3) by (simp_all add: h3_def t3_def)
    from wrap t3(2) have "disp t \<noteq> - 1 \<longrightarrow> unat (disp t3) = unat (disp t) + 1" by simp
    with stop out head_nl line t3 show ?thesis by blast
  qed
qed


text \<open>C9, witness: a dispatch of the task of \<open>heap_example\<close>, named \<^verbatim>\<open>"t1"\<close>, that runs
  \<open>events_example\<close> and stops Blocked.\<close>

theorem dispatch_writes_one_line_witness:
  "dirty_inv heap_example \<and> states_ok heap_example \<and> modes_ok heap_example \<and>
   tasks heap_example 0x200 = Some task_example \<and>
   ctxs heap_example (ctx task_example) = Some ctx_example \<and>
   CHR 0x0A \<notin> set (name task_example) \<and>
   LpelMonTaskStart timing_zero 0x200 heap_example = Inr heap_started \<and>
   list_all event_ok events_example \<and>
   mon_run events_example heap_started = Inr heap_started_dirty \<and>
   (\<exists>h3 line t3.
      LpelMonTaskStop timing_example timing_zero 0x200 TASK_BLOCKED heap_started_dirty
        = Some (Inr h3) \<and>
      map_option outfile (ctxs h3 0x100) = Some (line @ [CHR 0x0A]) \<and>
      CHR 0x0A \<notin> set line \<and> tasks h3 0x200 = Some t3 \<and> disp t3 = 1)"
proof -
  have t: "tasks heap_example 0x200 = Some task_example" by (simp add: heap_example_def)
  have cx: "ctx task_example = 0x100" by (simp add: task_example_def)
  have c: "ctxs heap_example (ctx task_example) = Some ctx_example"
    by (simp add: heap_example_def cx)
  have nl: "CHR 0x0A \<notin> set (name task_example)" by (simp add: task_example_def)
  have start: "LpelMonTaskStart timing_zero 0x200 heap_example = Inr heap_started"
    by (simp add: LpelMonTaskStart_def Let_def heap_started_def mon_inputs ctx_example_def
        task_example_def heap_example_def)
  have evs: "list_all event_ok events_example"
    by (simp add: events_example_def mode_ok_def)
  have run: "mon_run events_example heap_started = Inr heap_started_dirty"
    by (simp add: stream_ops MarkDirty_def Let_def heap_started_def heap_started_dirty_def
        mon_inputs ctx_example_def task_example_def heap_example_def events_example_def
        stream_example_def heap_dirty_def)
  from dispatch_writes_one_line [OF dirty_inv_heap_example states_ok_heap_example
      modes_ok_heap_example t c nl start evs run, of timing_example timing_zero TASK_BLOCKED]
  obtain h3 line t3 where
    "LpelMonTaskStop timing_example timing_zero 0x200 TASK_BLOCKED heap_started_dirty
       = Some (Inr h3)"
    "ctxs h3 (ctx task_example) = Some (ctx_example\<lparr>ctx_disp := ctx_disp ctx_example + 1,
       outfile := outfile ctx_example @ line @ [CHR 0x0A]\<rparr>)"
    "CHR 0x0A \<notin> set line" "tasks h3 0x200 = Some t3" "disp t3 = disp task_example + 1"
    by blast
  then have "\<exists>h3 line t3.
      LpelMonTaskStop timing_example timing_zero 0x200 TASK_BLOCKED heap_started_dirty
        = Some (Inr h3) \<and>
      map_option outfile (ctxs h3 0x100) = Some (line @ [CHR 0x0A]) \<and>
      CHR 0x0A \<notin> set line \<and> tasks h3 0x200 = Some t3 \<and> disp t3 = 1"
    by (auto simp: cx ctx_example_def task_example_def)
  with dirty_inv_heap_example states_ok_heap_example modes_ok_heap_example t c nl start evs run
  show ?thesis by blast
qed

subsection \<open>The dirty-list discipline is kept by the task operations too\<close>

text \<open>
  A store without tasks and descriptors keeps the discipline, and creating, assigning,
  starting and stopping a task keep it, as the stream events do: it holds at every
  point of a run of the monitoring callbacks. A stop also keeps every descriptor in one
  of the four states.
\<close>

lemma dirty_inv_no_streams:
  assumes "streams h = Map.empty" and "tasks h = Map.empty"
  shows "dirty_inv h"
  using assms by (simp add: dirty_inv_def)

lemma dirty_inv_new_task:
  assumes inv: "dirty_inv h" and fresh: "tasks h a = None"
    and d: "dirty_list t = ST_DIRTY_END"
  shows "dirty_inv (h\<lparr>tasks := (tasks h)(a \<mapsto> t)\<rparr>)" (is "dirty_inv ?h'")
proof (rule dirty_invI)
  from inv show "streams ?h' NULL = None" by (simp add: dirty_inv_NULL)
  from inv show "streams ?h' ST_DIRTY_END = None" by (simp add: dirty_inv_END)
next
  fix mt u assume u: "tasks ?h' mt = Some u"
  show "\<exists>ps. dirty_chain (streams ?h') (dirty_list u) ps \<and>
      (\<forall>b\<in>set ps. \<forall>s. streams ?h' b = Some s \<longrightarrow> montask s = mt)"
  proof (cases "mt = a")
    case True
    with u d have "dirty_chain (streams ?h') (dirty_list u) []" by simp
    then show ?thesis by (intro exI [of _ "[]"]) simp
  next
    case False
    with u have "tasks h mt = Some u" by simp
    from dirty_inv_task [OF inv this] show ?thesis by simp
  qed
next
  fix b x assume "streams ?h' b = Some x" and nn: "dirty x \<noteq> NULL"
  then have x: "streams h b = Some x" by simp
  from dirty_inv_stream [OF inv x nn] obtain u ps where
    u: "tasks h (montask x) = Some u" "dirty_chain (streams h) (dirty_list u) ps" "b \<in> set ps"
    by blast
  from u(1) fresh have "montask x \<noteq> a" by auto
  with u show "\<exists>t ps. tasks ?h' (montask x) = Some t \<and>
      dirty_chain (streams ?h') (dirty_list t) ps \<and> b \<in> set ps"
    by auto
qed

lemma LpelMonTaskCreate_inv:
  assumes "dirty_inv h" and "LpelMonTaskCreate T tnow a tid' nm flags' h = Inr (p, h')"
  shows "dirty_inv h'"
proof -
  let ?mt = "\<lparr>name = (case nm of None \<Rightarrow> [] | Some n \<Rightarrow> take (MON_TASKNAME_MAXLEN - 1) n),
               ctx = NULL, tid = tid', mon_flags = flags', disp = 0,
               times_creat = timing_zero, times_total = timing_zero,
               times_start = timing_zero, times_stop = timing_zero,
               dirty_list = ST_DIRTY_END, blockon = CHR 0x00\<rparr>"
  let ?mt1 = "if FLAG_TIMES ?mt
              then ?mt\<lparr>times_creat := TimingDiff T (monitoring_begin h) tnow\<rparr> else ?mt"
  from assms(2) have fresh: "tasks h a = None"
    and h': "h' = h\<lparr>tasks := (tasks h)(a \<mapsto> ?mt1)\<rparr>"
    by (auto simp: LpelMonTaskCreate_def Let_def split: if_splits)
  have "dirty_list ?mt1 = ST_DIRTY_END" by simp
  from dirty_inv_new_task [OF assms(1) fresh this] h' show ?thesis by simp
qed

lemma LpelMonTaskAssign_inv:
  assumes "dirty_inv h" and "LpelMonTaskAssign mt c h = Inr h'"
  shows "dirty_inv h'"
proof -
  from assms(2) obtain t where "tasks h mt = Some t"
    "h' = h\<lparr>tasks := (tasks h)(mt \<mapsto> t\<lparr>ctx := c\<rparr>)\<rparr>"
    by (auto simp: LpelMonTaskAssign_def split: if_splits option.splits)
  with dirty_inv_upd_task [OF assms(1), of mt t "t\<lparr>ctx := c\<rparr>"] show ?thesis by simp
qed

lemma LpelMonTaskStart_inv:
  assumes "dirty_inv h" and "LpelMonTaskStart now mt h = Inr h'"
  shows "dirty_inv h'"
proof -
  from assms(2) obtain t c where t: "tasks h mt = Some t" and c: "ctxs h (ctx t) = Some c"
    by (auto simp: LpelMonTaskStart_def Let_def split: if_splits option.splits)
  from LpelMonTaskStart_result [OF assms(2) t c]
    dirty_inv_upd_task [OF assms(1) t, of "start_task now t"]
  show ?thesis by simp
qed

lemma dirty_inv_drained:
  assumes inv: "dirty_inv h" and t: "tasks h mt = Some t"
    and ch: "dirty_chain (streams h) (dirty_list t) ps"
    and own: "\<forall>a\<in>set ps. \<forall>s. streams h a = Some s \<longrightarrow> montask s = mt"
    and d: "dirty_list t' = ST_DIRTY_END"
  shows "dirty_inv (h\<lparr>streams := drain_all (streams h) ps,
                     tasks := (tasks h)(mt \<mapsto> t')\<rparr>)" (is "dirty_inv ?h'")
proof (rule dirty_invI)
  from inv show "streams ?h' NULL = None" by (simp add: drain_all_def dirty_inv_NULL)
  from inv show "streams ?h' ST_DIRTY_END = None" by (simp add: drain_all_def dirty_inv_END)
next
  have other: "dirty_chain (streams ?h') p qs = dirty_chain (streams h) p qs \<and>
      (\<forall>b\<in>set qs. streams ?h' b = streams h b)"
    if u: "tasks h mt' = Some u" and ne: "mt' \<noteq> mt"
      and qs: "dirty_chain (streams h) (dirty_list u) qs"
      "\<forall>b\<in>set qs. \<forall>s. streams h b = Some s \<longrightarrow> montask s = mt'" for mt' u qs p
  proof -
    have "b \<notin> set ps" if "b \<in> set qs" for b
    proof
      assume "b \<in> set ps"
      from dirty_chain_allocated [OF ch this] obtain s where s: "streams h b = Some s" by auto
      with own \<open>b \<in> set ps\<close> have "montask s = mt" by blast
      moreover from qs(2) \<open>b \<in> set qs\<close> s have "montask s = mt'" by blast
      ultimately show False using ne by simp
    qed
    then have eq: "\<forall>b\<in>set qs. streams ?h' b = streams h b" by (simp add: drain_all_def)
    then have "dirty_chain (streams ?h') p qs = dirty_chain (streams h) p qs"
      by (intro dirty_chain_cong) simp
    with eq show ?thesis by blast
  qed
  {
    fix mt' u assume u: "tasks ?h' mt' = Some u"
    show "\<exists>qs. dirty_chain (streams ?h') (dirty_list u) qs \<and>
        (\<forall>b\<in>set qs. \<forall>s. streams ?h' b = Some s \<longrightarrow> montask s = mt')"
    proof (cases "mt' = mt")
      case True
      with u d have "dirty_chain (streams ?h') (dirty_list u) []" by simp
      then show ?thesis by (intro exI [of _ "[]"]) simp
    next
      case False
      with u have u': "tasks h mt' = Some u" by simp
      from dirty_inv_task [OF inv u'] obtain qs where
        qs: "dirty_chain (streams h) (dirty_list u) qs"
          "\<forall>b\<in>set qs. \<forall>s. streams h b = Some s \<longrightarrow> montask s = mt'" by blast
      from other [OF u' False qs, of "dirty_list u"] qs show ?thesis
        by (intro exI [of _ qs]) simp
    qed
  next
    fix b x assume b: "streams ?h' b = Some x" and nn: "dirty x \<noteq> NULL"
    have notin: "b \<notin> set ps"
    proof
      assume "b \<in> set ps"
      with b nn show False
        by (auto simp: drain_all_def drained_def split: if_splits Option.bind_splits)
    qed
    with b have x: "streams h b = Some x" by (simp add: drain_all_def)
    from dirty_inv_stream [OF inv x nn] obtain u qs where
      u: "tasks h (montask x) = Some u" "dirty_chain (streams h) (dirty_list u) qs"
        "b \<in> set qs" by blast
    have ne: "montask x \<noteq> mt"
    proof
      assume "montask x = mt"
      with u t have "qs = ps" using ch by (auto dest: dirty_chain_unique)
      with u(3) notin show False by simp
    qed
    from dirty_inv_task [OF inv u(1)] obtain qs' where
      qs': "dirty_chain (streams h) (dirty_list u) qs'"
        "\<forall>b\<in>set qs'. \<forall>s. streams h b = Some s \<longrightarrow> montask s = montask x" by blast
    from dirty_chain_unique [OF u(2) qs'(1)] have "qs' = qs" by simp
    with qs'(2) have
      qs: "\<forall>b\<in>set qs. \<forall>s. streams h b = Some s \<longrightarrow> montask s = montask x" by blast
    from other [OF u(1) ne u(2) qs, of "dirty_list u"] u(2)
    have "dirty_chain (streams ?h') (dirty_list u) qs" by simp
    moreover have "tasks ?h' (montask x) = Some u" using ne u(1) by simp
    ultimately show "\<exists>t ps. tasks ?h' (montask x) = Some t \<and>
        dirty_chain (streams ?h') (dirty_list t) ps \<and> b \<in> set ps"
      using u(3) by blast
  }
qed

lemma dirty_inv_cong:
  "tasks h' = tasks h \<Longrightarrow> streams h' = streams h \<Longrightarrow> dirty_inv h' = dirty_inv h"
  by (simp add: dirty_inv_def)

lemma LpelMonTaskStop_inv:
  assumes inv: "dirty_inv h" and sok: "states_ok h"
    and stop: "LpelMonTaskStop T now mt st h = Some (Inr h')"
  shows "dirty_inv h'"
proof -
  from stop obtain t c where t: "tasks h mt = Some t" and c: "ctxs h (ctx t) = Some c"
    by (auto simp: LpelMonTaskStop_def split: option.splits)
  show ?thesis
  proof (cases "FLAG_STREAMS t")
    case True
    from dirty_inv_task [OF inv t] obtain ps where
      ps: "dirty_chain (streams h) (dirty_list t) ps"
        "\<forall>a\<in>set ps. \<forall>s. streams h a = Some s \<longrightarrow> montask s = mt" by blast
    have ok: "\<forall>a\<in>set ps. \<forall>s. streams h a = Some s \<longrightarrow> montask s = mt \<and> state_ok s"
      using ps(2) sok by (auto simp: states_ok_def)
    let ?t' = "(stop_task T now t)\<lparr>dirty_list := ST_DIRTY_END\<rparr>"
    from stop LpelMonTaskStop_streams [OF t c True ps(1) ok, of T now st]
    have "tasks h' = (tasks h)(mt \<mapsto> ?t')" "streams h' = drain_all (streams h) ps"
      by auto
    then have "dirty_inv h' = dirty_inv (h\<lparr>streams := drain_all (streams h) ps,
        tasks := (tasks h)(mt \<mapsto> ?t')\<rparr>)"
      by (intro dirty_inv_cong) simp_all
    with dirty_inv_drained [OF inv t ps, of ?t'] show ?thesis by simp
  next
    case False
    from stop LpelMonTaskStop_no_streams [OF t c False, of T now st]
    have "tasks h' = (tasks h)(mt \<mapsto> stop_task T now t)" "streams h' = streams h"
      by auto
    then have "dirty_inv h' = dirty_inv (h\<lparr>tasks := (tasks h)(mt \<mapsto> stop_task T now t)\<rparr>)"
      by (intro dirty_inv_cong) simp_all
    with dirty_inv_upd_task [OF inv t, of "stop_task T now t"] show ?thesis by simp
  qed
qed

lemma drained_state_ok: "state_ok s \<Longrightarrow> drained s = Some s' \<Longrightarrow> state_ok s'"
  by (auto simp: drained_def state_ok_def split: if_splits)

lemma LpelMonTaskStop_states_ok:
  assumes inv: "dirty_inv h" and sok: "states_ok h"
    and stop: "LpelMonTaskStop T now mt st h = Some (Inr h')"
  shows "states_ok h'"
proof -
  from stop obtain t c where t: "tasks h mt = Some t" and c: "ctxs h (ctx t) = Some c"
    by (auto simp: LpelMonTaskStop_def split: option.splits)
  show ?thesis
  proof (cases "FLAG_STREAMS t")
    case True
    from dirty_inv_task [OF inv t] obtain ps where
      ps: "dirty_chain (streams h) (dirty_list t) ps"
        "\<forall>a\<in>set ps. \<forall>s. streams h a = Some s \<longrightarrow> montask s = mt" by blast
    have ok: "\<forall>a\<in>set ps. \<forall>s. streams h a = Some s \<longrightarrow> montask s = mt \<and> state_ok s"
      using ps(2) sok by (auto simp: states_ok_def)
    from stop LpelMonTaskStop_streams [OF t c True ps(1) ok, of T now st]
    have e: "streams h' = drain_all (streams h) ps" by auto
    show ?thesis
      unfolding states_ok_def e
    proof (intro allI impI)
      fix a x assume x: "drain_all (streams h) ps a = Some x"
      show "state_ok x"
      proof (cases "a \<in> set ps")
        case True
        with x obtain s where "streams h a = Some s" "drained s = Some x"
          by (auto simp: drain_all_def split: Option.bind_splits)
        with sok show ?thesis by (auto simp: states_ok_def intro: drained_state_ok)
      next
        case False
        with x sok show ?thesis by (simp add: drain_all_def states_ok_def)
      qed
    qed
  next
    case False
    from stop LpelMonTaskStop_no_streams [OF t c False, of T now st]
    have "streams h' = streams h" by auto
    with sok show ?thesis by (simp add: states_ok_def)
  qed
qed

end
